theory Spec2Isabelle
  imports Complex_Main
begin

section \<open>Instants and the calendar of the Date object\<close>

text \<open>
  A \<open>Date\<close> holds a time value: milliseconds since the epoch. The calendar functions
  below are the abstract operations of the language standard that \<open>getDate\<close>,
  \<open>setDate\<close>, \<open>getMonth\<close> and \<open>setMonth\<close> are defined by. Time values are
  mathematical integers (the range limit of \<open>Date\<close>, about 275000 years either side
  of the epoch, is not modelled), and local time is UTC shifted by the offset that the
  host's time zone has at that instant.
\<close>

type_synonym instant = int

definition msPerDay :: int where
  "msPerDay = 86400000"

definition Day :: "instant \<Rightarrow> int" where
  "Day t = t div msPerDay"

definition TimeWithinDay :: "instant \<Rightarrow> int" where
  "TimeWithinDay t = t mod msPerDay"

definition DaysInYear :: "int \<Rightarrow> int" where
  "DaysInYear y =
     (if y mod 4 \<noteq> 0 then 365
      else if y mod 100 \<noteq> 0 then 366
      else if y mod 400 \<noteq> 0 then 365
      else 366)"

definition DayFromYear :: "int \<Rightarrow> int" where
  "DayFromYear y =
     365 * (y - 1970) + (y - 1969) div 4 - (y - 1901) div 100 + (y - 1601) div 400"

text \<open>
  \<open>YearFromDay d\<close> is the year that contains day number \<open>d\<close>: the largest \<open>y\<close> with
  \<open>DayFromYear y \<le> d\<close> (lemma \<open>YearFromDay_bounds\<close>). It is computed from the mean
  year length of 146097/400 days, corrected by at most one year.
\<close>

definition YearFromDay :: "int \<Rightarrow> int" where
  "YearFromDay d =
     (let y0 = 1970 + (400 * d) div 146097
      in if d < DayFromYear y0 then y0 - 1
         else if DayFromYear (y0 + 1) \<le> d then y0 + 1
         else y0)"

definition YearFromTime :: "instant \<Rightarrow> int" where
  "YearFromTime t = YearFromDay (Day t)"

definition InLeapYear :: "instant \<Rightarrow> int" where
  "InLeapYear t = (if DaysInYear (YearFromTime t) = 366 then 1 else 0)"

definition DayWithinYear :: "instant \<Rightarrow> int" where
  "DayWithinYear t = Day t - DayFromYear (YearFromTime t)"

text \<open>Days of the year before the first day of month \<open>m\<close> (0 = January).\<close>

definition daysBeforeMonth :: "int \<Rightarrow> int \<Rightarrow> int" where
  "daysBeforeMonth leap m =
     (if m = 0 then 0
      else if m = 1 then 31
      else if m = 2 then 59 + leap
      else if m = 3 then 90 + leap
      else if m = 4 then 120 + leap
      else if m = 5 then 151 + leap
      else if m = 6 then 181 + leap
      else if m = 7 then 212 + leap
      else if m = 8 then 243 + leap
      else if m = 9 then 273 + leap
      else if m = 10 then 304 + leap
      else 334 + leap)"

definition monthOfYearDay :: "int \<Rightarrow> int \<Rightarrow> int" where
  "monthOfYearDay leap d =
     (if d < 31 then 0
      else if d < 59 + leap then 1
      else if d < 90 + leap then 2
      else if d < 120 + leap then 3
      else if d < 151 + leap then 4
      else if d < 181 + leap then 5
      else if d < 212 + leap then 6
      else if d < 243 + leap then 7
      else if d < 273 + leap then 8
      else if d < 304 + leap then 9
      else if d < 334 + leap then 10
      else 11)"

definition MonthFromTime :: "instant \<Rightarrow> int" where
  "MonthFromTime t = monthOfYearDay (InLeapYear t) (DayWithinYear t)"

definition DateFromTime :: "instant \<Rightarrow> int" where
  "DateFromTime t =
     DayWithinYear t - daysBeforeMonth (InLeapYear t) (MonthFromTime t) + 1"

text \<open>
  \<open>MakeDay year month date\<close>: months outside 0..11 carry into the year, and the date
  is counted from the first of that month, so a date past the month's end runs on
  into the following month.
\<close>

definition MakeDay :: "int \<Rightarrow> int \<Rightarrow> int \<Rightarrow> int" where
  "MakeDay year month date =
     (let ym = year + month div 12;
          mn = month mod 12;
          leap = (if DaysInYear ym = 366 then 1 else 0)
      in DayFromYear ym + daysBeforeMonth leap mn + date - 1)"

definition MakeDate :: "int \<Rightarrow> int \<Rightarrow> instant" where
  "MakeDate day time = day * msPerDay + time"

text \<open>
  The host's time zone gives the offset from UTC, in milliseconds, in the two ways of the
  language standard: \<open>utcOffset z t\<close> is the offset in force at the instant \<open>t\<close>,
  and \<open>localOffset z lt\<close> is the offset by which the local time value \<open>lt\<close> is read
  back as an instant (for a local time that a transition repeats or skips, the offset
  before the transition). The offsets of a zone are such that a local time value moved
  forward by whole days is read back as a later instant, as it is whenever the offsets
  of the zone lie less than 24 hours apart.
\<close>

typedef zone =
  "{z :: (int \<Rightarrow> int) \<times> (int \<Rightarrow> int).
      \<forall>t d. 1 \<le> d \<longrightarrow> snd z (t + fst z t + d * 86400000) < fst z t + d * 86400000}"
  by (rule exI[of _ "(\<lambda>t. 0, \<lambda>t. 0)"]) simp

setup_lifting type_definition_zone

lift_definition utcOffset :: "zone \<Rightarrow> instant \<Rightarrow> int" is fst .

lift_definition localOffset :: "zone \<Rightarrow> instant \<Rightarrow> int" is snd .

text \<open>A zone without transitions: the same offset at every instant.\<close>

lift_definition fixedZone :: "int \<Rightarrow> zone" is "\<lambda>off. (\<lambda>t. off, \<lambda>t. off)"
  by simp

definition LocalTime :: "zone \<Rightarrow> instant \<Rightarrow> instant" where
  "LocalTime z t = t + utcOffset z t"

definition UTC :: "zone \<Rightarrow> instant \<Rightarrow> instant" where
  "UTC z lt = lt - localOffset z lt"

definition getDate :: "zone \<Rightarrow> instant \<Rightarrow> int" where
  "getDate z t = DateFromTime (LocalTime z t)"

definition getMonth :: "zone \<Rightarrow> instant \<Rightarrow> int" where
  "getMonth z t = MonthFromTime (LocalTime z t)"

definition setDate :: "zone \<Rightarrow> instant \<Rightarrow> int \<Rightarrow> instant" where
  "setDate z t dt =
     (let lt = LocalTime z t
      in UTC z (MakeDate (MakeDay (YearFromTime lt) (MonthFromTime lt) dt)
                         (TimeWithinDay lt)))"

definition setMonth :: "zone \<Rightarrow> instant \<Rightarrow> int \<Rightarrow> instant" where
  "setMonth z t m =
     (let lt = LocalTime z t
      in UTC z (MakeDate (MakeDay (YearFromTime lt) m (DateFromTime lt))
                         (TimeWithinDay lt)))"

text \<open>Length of month m in a year with the given leap flag.\<close>
definition DaysInMonth :: "int \<Rightarrow> int \<Rightarrow> int" where
  "DaysInMonth leap m =
     (if m = 1 then 28 + leap
      else if m = 3 \<or> m = 5 \<or> m = 8 \<or> m = 10 then 30
      else 31)"

subsection \<open>Facts about the calendar\<close>

lemma div_step:
  fixes z k :: int
  assumes "0 < k"
  shows "(z + 1) div k = z div k + (if (z + 1) mod k = 0 then 1 else 0)"
proof (cases "z mod k + 1 = k")
  case True
  have "z + 1 = k * (z div k) + (z mod k + 1)"
    using mult_div_mod_eq[of k z] by (simp add: algebra_simps)
  also have "\<dots> = k * (z div k + 1) + 0"
    unfolding True by (simp add: algebra_simps)
  finally have z: "z + 1 = k * (z div k + 1) + 0" .
  have "(z + 1) div k = z div k + 1"
    by (rule int_div_pos_eq[OF z]) (use assms in auto)
  moreover have "(z + 1) mod k = 0"
    by (rule int_mod_pos_eq[OF z]) (use assms in auto)
  ultimately show ?thesis by simp
next
  case False
  have r: "0 \<le> z mod k" "z mod k < k" using assms by auto
  have z: "z + 1 = k * (z div k) + (z mod k + 1)"
    using mult_div_mod_eq[of k z] by (simp add: algebra_simps)
  have "(z + 1) div k = z div k"
    by (rule int_div_pos_eq[OF z]) (use r False in auto)
  moreover have "(z + 1) mod k = z mod k + 1"
    by (rule int_mod_pos_eq[OF z]) (use r False in auto)
  ultimately show ?thesis using r by simp
qed

lemma mod_shift:
  fixes y :: int
  shows "(y + 1 - 1969) mod 4 = 0 \<longleftrightarrow> y mod 4 = 0"
    and "(y + 1 - 1901) mod 100 = 0 \<longleftrightarrow> y mod 100 = 0"
    and "(y + 1 - 1601) mod 400 = 0 \<longleftrightarrow> y mod 400 = 0"
proof -
  have "(y + 1 - 1969) mod 4 = (y - 4 * 492) mod 4" by (simp add: algebra_simps)
  also have "\<dots> = (y + 4 * (-492)) mod 4" by simp
  also have "\<dots> = y mod 4" by (rule mod_mult_self2)
  finally show "(y + 1 - 1969) mod 4 = 0 \<longleftrightarrow> y mod 4 = 0" by simp
  have "(y + 1 - 1901) mod 100 = (y + 100 * (-19)) mod 100" by (simp add: algebra_simps)
  also have "\<dots> = y mod 100" by (rule mod_mult_self2)
  finally show "(y + 1 - 1901) mod 100 = 0 \<longleftrightarrow> y mod 100 = 0" by simp
  have "(y + 1 - 1601) mod 400 = (y + 400 * (-4)) mod 400" by (simp add: algebra_simps)
  also have "\<dots> = y mod 400" by (rule mod_mult_self2)
  finally show "(y + 1 - 1601) mod 400 = 0 \<longleftrightarrow> y mod 400 = 0" by simp
qed

lemma mod_chain:
  fixes y :: int
  shows "y mod 400 = 0 \<Longrightarrow> y mod 100 = 0" and "y mod 100 = 0 \<Longrightarrow> y mod 4 = 0"
proof -
  show "y mod 400 = 0 \<Longrightarrow> y mod 100 = 0"
    using mod_mod_cancel[of 100 400 y] by simp
  show "y mod 100 = 0 \<Longrightarrow> y mod 4 = 0"
    using mod_mod_cancel[of 4 100 y] by simp
qed

lemma DayFromYear_Suc: "DayFromYear (y + 1) = DayFromYear y + DaysInYear y"
proof -
  have a: "(y + 1 - 1969) div 4 = (y - 1969) div 4 + (if y mod 4 = 0 then 1 else 0)"
    using div_step[of 4 "y - 1969"] mod_shift(1)[of y] by (simp add: algebra_simps)
  have b: "(y + 1 - 1901) div 100 = (y - 1901) div 100 + (if y mod 100 = 0 then 1 else 0)"
    using div_step[of 100 "y - 1901"] mod_shift(2)[of y] by (simp add: algebra_simps)
  have c: "(y + 1 - 1601) div 400 = (y - 1601) div 400 + (if y mod 400 = 0 then 1 else 0)"
    using div_step[of 400 "y - 1601"] mod_shift(3)[of y] by (simp add: algebra_simps)
  show ?thesis
    unfolding DayFromYear_def DaysInYear_def a b c
    using mod_chain[of y] by auto
qed

lemma DaysInYear_range: "365 \<le> DaysInYear y \<and> DaysInYear y \<le> 366"
  by (simp add: DaysInYear_def)

lemma monthOfYearDay_range: "0 \<le> monthOfYearDay leap d \<and> monthOfYearDay leap d \<le> 11"
  by (simp add: monthOfYearDay_def)

lemma MonthFromTime_range: "0 \<le> MonthFromTime t \<and> MonthFromTime t \<le> 11"
  by (simp add: MonthFromTime_def monthOfYearDay_range)

lemma MakeDay_of_time:
  "MakeDay (YearFromTime t) (MonthFromTime t) (DateFromTime t + n) = Day t + n"
proof -
  have m: "MonthFromTime t div 12 = 0" "MonthFromTime t mod 12 = MonthFromTime t"
    using MonthFromTime_range[of t] by auto
  show ?thesis
    unfolding MakeDay_def Let_def m
    by (simp add: DateFromTime_def DayWithinYear_def InLeapYear_def)
qed

lemma MakeDate_Day: "MakeDate (Day t + n) (TimeWithinDay t) = t + n * msPerDay"
  by (simp add: MakeDate_def Day_def TimeWithinDay_def algebra_simps)

lemma utcOffset_fixedZone: "utcOffset (fixedZone off) t = off"
  by transfer simp

lemma localOffset_fixedZone: "localOffset (fixedZone off) lt = off"
  by transfer simp

lemma zone_progress:
  "1 \<le> d \<Longrightarrow> localOffset z (LocalTime z t + d * msPerDay) < utcOffset z t + d * msPerDay"
  unfolding LocalTime_def msPerDay_def by transfer simp

lemma setDate_getDate:
  "setDate z t (getDate z t + n) = UTC z (LocalTime z t + n * msPerDay)"
  by (simp add: setDate_def getDate_def Let_def MakeDay_of_time MakeDate_Day)

lemma MakeDay_next_month:
  assumes "0 \<le> m" "m \<le> 11"
  shows "MakeDay y (m + 1) d = MakeDay y m d + DaysInMonth (if DaysInYear y = 366 then 1 else 0) m"
proof (cases "m = 11")
  case True
  have "MakeDay y 12 d = DayFromYear (y + 1) + d - 1"
    by (simp add: MakeDay_def daysBeforeMonth_def)
  moreover have "MakeDay y 11 d = DayFromYear y + 334 + (if DaysInYear y = 366 then 1 else 0) + d - 1"
    by (simp add: MakeDay_def daysBeforeMonth_def)
  ultimately show ?thesis using True
    by (simp add: DayFromYear_Suc DaysInMonth_def DaysInYear_def)
next
  case False
  then have "m = 0 \<or> m = 1 \<or> m = 2 \<or> m = 3 \<or> m = 4 \<or> m = 5 \<or> m = 6 \<or> m = 7 \<or> m = 8 \<or> m = 9 \<or> m = 10"
    using assms by arith
  then show ?thesis
    by (elim disjE) (simp_all add: MakeDay_def daysBeforeMonth_def DaysInMonth_def)
qed

lemma setMonth_getMonth:
  "setMonth z t (getMonth z t + 1) =
     UTC z (LocalTime z t + DaysInMonth (InLeapYear (LocalTime z t)) (getMonth z t) * msPerDay)"
proof -
  let ?lt = "LocalTime z t"
  have "MakeDay (YearFromTime ?lt) (MonthFromTime ?lt + 1) (DateFromTime ?lt)
          = Day ?lt + DaysInMonth (InLeapYear ?lt) (MonthFromTime ?lt)"
    using MakeDay_next_month[OF MonthFromTime_range[of ?lt, THEN conjunct1] MonthFromTime_range[of ?lt, THEN conjunct2], of "YearFromTime ?lt" "DateFromTime ?lt"]
      MakeDay_of_time[of ?lt 0]
    by (simp add: InLeapYear_def)
  then show ?thesis
    by (simp add: setMonth_def getMonth_def Let_def MakeDate_Day)
qed

lemma UTC_later: "1 \<le> d \<Longrightarrow> t < UTC z (LocalTime z t + d * msPerDay)"
  using zone_progress[of d z t] by (simp add: UTC_def LocalTime_def)

lemma DaysInMonth_range: "28 \<le> DaysInMonth (InLeapYear t) m \<and> DaysInMonth (InLeapYear t) m \<le> 31"
  by (simp add: DaysInMonth_def InLeapYear_def)

lemma div_bounds:
  fixes a k :: int
  assumes "0 < k"
  shows "k * (a div k) \<le> a" and "a < k * (a div k) + k"
proof -
  have "a = k * (a div k) + a mod k" by simp
  moreover have "0 \<le> a mod k" "a mod k < k" using assms by auto
  ultimately show "k * (a div k) \<le> a" and "a < k * (a div k) + k" by linarith+
qed

lemma YearFromDay_bounds:
  "DayFromYear (YearFromDay d) \<le> d \<and> d < DayFromYear (YearFromDay d + 1)"
proof -
  define n where "n = (400 * d) div 146097"
  have n: "146097 * n \<le> 400 * d" "400 * d < 146097 * n + 146097"
    unfolding n_def using div_bounds[of 146097 "400 * d"] by simp_all
  show ?thesis
  proof (cases "d < DayFromYear (1970 + n)")
    case True
    have y: "YearFromDay d = 1970 + n - 1"
      using True by (simp add: YearFromDay_def n_def Let_def)
    have e: "DayFromYear (1970 + n - 1) = 365 * (n - 1) + n div 4 - (n + 68) div 100 + (n + 368) div 400"
      by (simp add: DayFromYear_def algebra_simps)
    define A B C where "A = n div 4" and "B = (n + 68) div 100" and "C = (n + 368) div 400"
    have "4 * A \<le> n" "n + 68 < 100 * B + 100" "400 * C \<le> n + 368"
      unfolding A_def B_def C_def
      using div_bounds(1)[of 4 n] div_bounds(2)[of 100 "n + 68"] div_bounds(1)[of 400 "n + 368"]
      by simp_all
    then have "146000 * n - 146000 + 400 * A - 400 * B + 400 * C \<le> 400 * d"
      using n by linarith
    then have "400 * DayFromYear (1970 + n - 1) \<le> 400 * d"
      unfolding e A_def B_def C_def by (simp add: algebra_simps)
    then show ?thesis using True y by simp
  next
    case False
    show ?thesis
    proof (cases "DayFromYear (1970 + n + 1) \<le> d")
      case True
      have y: "YearFromDay d = 1970 + n + 1"
        using True False by (simp add: YearFromDay_def n_def Let_def)
      have e: "DayFromYear (1970 + n + 1 + 1) = 365 * (n + 2) + (n + 3) div 4 - (n + 71) div 100 + (n + 371) div 400"
        by (simp add: DayFromYear_def algebra_simps)
      define A B C where "A = (n + 3) div 4" and "B = (n + 71) div 100" and "C = (n + 371) div 400"
      have "n + 3 < 4 * A + 4" "100 * B \<le> n + 71" "n + 371 < 400 * C + 400"
        unfolding A_def B_def C_def
        using div_bounds(2)[of 4 "n + 3"] div_bounds(1)[of 100 "n + 71"] div_bounds(2)[of 400 "n + 371"]
        by simp_all
      then have "400 * d < 146000 * n + 292000 + 400 * A - 400 * B + 400 * C"
        using n by linarith
      then have "400 * d < 400 * DayFromYear (1970 + n + 1 + 1)"
        unfolding e A_def B_def C_def by (simp add: algebra_simps)
      then show ?thesis using True y by simp
    next
      case F2: False
      have y: "YearFromDay d = 1970 + n"
        using False F2 by (simp add: YearFromDay_def n_def Let_def)
      show ?thesis using False F2 y by simp
    qed
  qed
qed

lemma DayFromYear_mono: "y \<le> z \<Longrightarrow> DayFromYear y \<le> DayFromYear z"
proof -
  have "DayFromYear y \<le> DayFromYear (y + int k)" for k
  proof (induction k)
    case 0 show ?case by simp
  next
    case (Suc k)
    have "DayFromYear (y + int (Suc k)) = DayFromYear (y + int k) + DaysInYear (y + int k)"
      using DayFromYear_Suc[of "y + int k"] by (simp add: algebra_simps)
    then show ?case using Suc DaysInYear_range[of "y + int k"] by linarith
  qed
  from this[of "nat (z - y)"] show "y \<le> z \<Longrightarrow> DayFromYear y \<le> DayFromYear z" by simp
qed

lemma YearFromTime_largest:
  "DayFromYear (YearFromTime t) * msPerDay \<le> t \<and>
   (\<forall>y. DayFromYear y * msPerDay \<le> t \<longrightarrow> y \<le> YearFromTime t)"
proof -
  have b: "DayFromYear (YearFromTime t) \<le> Day t" "Day t < DayFromYear (YearFromTime t + 1)"
    using YearFromDay_bounds[of "Day t"] by (simp_all add: YearFromTime_def)
  have d: "Day t * msPerDay \<le> t" "t < Day t * msPerDay + msPerDay"
    using div_bounds[of msPerDay t] by (simp_all add: Day_def msPerDay_def algebra_simps)
  have "DayFromYear (YearFromTime t) * msPerDay \<le> Day t * msPerDay"
    using b(1) by (simp add: msPerDay_def)
  then have 1: "DayFromYear (YearFromTime t) * msPerDay \<le> t" using d(1) by linarith
  have 2: "y \<le> YearFromTime t" if h: "DayFromYear y * msPerDay \<le> t" for y
  proof (rule ccontr)
    assume "\<not> y \<le> YearFromTime t"
    then have "YearFromTime t + 1 \<le> y" by simp
    then have "DayFromYear (YearFromTime t + 1) \<le> DayFromYear y" by (rule DayFromYear_mono)
    then have "Day t + 1 \<le> DayFromYear y" using b(2) by linarith
    then have "(Day t + 1) * msPerDay \<le> DayFromYear y * msPerDay" by (simp add: msPerDay_def)
    then show False using h d(2) by (simp add: algebra_simps)
  qed
  show ?thesis using 1 2 by blast
qed

lemma YearFromDay_unique:
  assumes "DayFromYear y \<le> d" and "d < DayFromYear (y + 1)"
  shows "YearFromDay d = y"
proof (rule ccontr)
  assume n: "YearFromDay d \<noteq> y"
  note b = YearFromDay_bounds[of d]
  show False
  proof (cases "YearFromDay d < y")
    case True
    then have "DayFromYear (YearFromDay d + 1) \<le> DayFromYear y"
      by (intro DayFromYear_mono) simp
    then show False using b assms(1) by linarith
  next
    case False
    then have "y + 1 \<le> YearFromDay d" using n by simp
    then have "DayFromYear (y + 1) \<le> DayFromYear (YearFromDay d)" by (rule DayFromYear_mono)
    then show False using b assms(2) by linarith
  qed
qed

lemma DayWithinYear_range: "0 \<le> DayWithinYear t \<and> DayWithinYear t < DaysInYear (YearFromTime t)"
  using YearFromDay_bounds[of "Day t"] DayFromYear_Suc[of "YearFromTime t"]
  by (simp add: DayWithinYear_def YearFromTime_def)

lemma DateFromTime_range:
  "1 \<le> DateFromTime t \<and> DateFromTime t \<le> DaysInMonth (InLeapYear t) (MonthFromTime t)"
proof -
  have l: "InLeapYear t = 0 \<or> InLeapYear t = 1" by (simp add: InLeapYear_def)
  have d: "0 \<le> DayWithinYear t" "DayWithinYear t < 365 + InLeapYear t"
    using DayWithinYear_range[of t] by (auto simp: InLeapYear_def DaysInYear_def split: if_splits)
  show ?thesis
    unfolding DateFromTime_def MonthFromTime_def monthOfYearDay_def daysBeforeMonth_def
      DaysInMonth_def
    using l d by auto
qed

lemma TimeWithinDay_range: "0 \<le> TimeWithinDay t \<and> TimeWithinDay t < msPerDay"
  by (simp add: TimeWithinDay_def msPerDay_def)

lemma MakeDate_parts:
  assumes "0 \<le> tm" "tm < msPerDay"
  shows "Day (MakeDate day tm) = day" and "TimeWithinDay (MakeDate day tm) = tm"
  using assms by (simp_all add: Day_def TimeWithinDay_def MakeDate_def msPerDay_def)

text \<open>
  A date that exists in a month is found again by the calendar functions: the day number
  \<open>MakeDay y m d\<close> lies in year \<open>y\<close>, month \<open>m\<close>, on day \<open>d\<close>.
\<close>

lemma calendar_of_MakeDay:
  assumes "0 \<le> m" "m \<le> 11" "1 \<le> d"
      and "d \<le> DaysInMonth (if DaysInYear y = 366 then 1 else 0) m"
      and tm: "0 \<le> tm" "tm < msPerDay"
  shows "YearFromTime (MakeDate (MakeDay y m d) tm) = y \<and>
         MonthFromTime (MakeDate (MakeDay y m d) tm) = m \<and>
         DateFromTime (MakeDate (MakeDay y m d) tm) = d"
proof -
  define L :: int where "L = (if DaysInYear y = 366 then 1 else 0)"
  let ?t = "MakeDate (MakeDay y m d) tm"
  have L: "L = 0 \<or> L = 1" and yl: "DaysInYear y = 365 + L"
    by (simp_all add: L_def DaysInYear_def)
  have mm: "m div 12 = 0" "m mod 12 = m" using assms(1,2) by auto
  have md: "MakeDay y m d = DayFromYear y + daysBeforeMonth L m + d - 1"
    by (simp add: MakeDay_def Let_def mm L_def)
  have day: "Day ?t = MakeDay y m d"
    using tm by (rule MakeDate_parts)
  have cases: "m = 0 \<or> m = 1 \<or> m = 2 \<or> m = 3 \<or> m = 4 \<or> m = 5 \<or> m = 6 \<or> m = 7 \<or> m = 8
      \<or> m = 9 \<or> m = 10 \<or> m = 11"
    using assms(1,2) by arith
  have dm: "d \<le> DaysInMonth L m" using assms(4) by (simp add: L_def)
  have w: "0 \<le> daysBeforeMonth L m + d - 1 \<and> daysBeforeMonth L m + d - 1 < 365 + L"
    using cases assms(3) dm L
    by (elim disjE) (auto simp: daysBeforeMonth_def DaysInMonth_def split: if_splits)
  have "DayFromYear y \<le> MakeDay y m d" "MakeDay y m d < DayFromYear (y + 1)"
    using w yl DayFromYear_Suc[of y] by (simp_all add: md)
  then have y: "YearFromDay (MakeDay y m d) = y" by (rule YearFromDay_unique)
  then have yt: "YearFromTime ?t = y" by (simp add: YearFromTime_def day)
  have lp: "InLeapYear ?t = L" by (simp add: InLeapYear_def yt L_def)
  have "DayWithinYear ?t = MakeDay y m d - DayFromYear y"
    unfolding DayWithinYear_def yt day by simp
  then have dw: "DayWithinYear ?t = daysBeforeMonth L m + d - 1"
    by (simp add: md)
  have mt: "MonthFromTime ?t = m"
    unfolding MonthFromTime_def lp dw
    using cases assms(3) dm L
    by (elim disjE) (auto simp: monthOfYearDay_def daysBeforeMonth_def DaysInMonth_def split: if_splits)
  have dt: "DateFromTime ?t = d"
    unfolding DateFromTime_def lp dw mt by simp
  show ?thesis using yt mt dt by simp
qed

lemma MakeDay_normal: "MakeDay y m d = MakeDay (y + m div 12) (m mod 12) d"
  by (simp add: MakeDay_def Let_def)

lemma month_carry:
  fixes m :: int
  shows "(m + 1) div 12 = m div 12 + (m mod 12 + 1) div 12"
    and "(m + 1) mod 12 = (m mod 12 + 1) mod 12"
proof -
  have "m + 1 = 12 * (m div 12) + (m mod 12 + 1)" by simp
  then have "(m + 1) div 12 = (12 * (m div 12) + (m mod 12 + 1)) div 12" by simp
  also have "\<dots> = m div 12 + (m mod 12 + 1) div 12" by (rule div_mult_self4) simp
  finally show "(m + 1) div 12 = m div 12 + (m mod 12 + 1) div 12" .
  show "(m + 1) mod 12 = (m mod 12 + 1) mod 12" by (simp add: mod_simps)
qed

lemma MakeDay_month_Suc: "MakeDay y (m + 1) d = MakeDay (y + m div 12) (m mod 12 + 1) d"
proof -
  have "MakeDay (y + m div 12) (m mod 12 + 1) d
          = MakeDay (y + m div 12 + (m mod 12 + 1) div 12) ((m mod 12 + 1) mod 12) d"
    by (rule MakeDay_normal)
  also have "\<dots> = MakeDay (y + (m + 1) div 12) ((m + 1) mod 12) d"
    by (simp only: month_carry[of m] add.assoc)
  also have "\<dots> = MakeDay y (m + 1) d" by (rule MakeDay_normal[symmetric])
  finally show ?thesis by simp
qed

lemma MakeDay_later_month: "MakeDay y m d + 28 \<le> MakeDay y (m + 1) d"
proof -
  let ?y = "y + m div 12" and ?m = "m mod 12"
  have r: "0 \<le> ?m" "?m \<le> 11" by simp_all
  have "MakeDay y (m + 1) d = MakeDay ?y (?m + 1) d" by (rule MakeDay_month_Suc)
  also have "\<dots> = MakeDay ?y ?m d + DaysInMonth (if DaysInYear ?y = 366 then 1 else 0) ?m"
    by (rule MakeDay_next_month[OF r])
  also have "MakeDay ?y ?m d = MakeDay y m d" by (rule MakeDay_normal[symmetric])
  finally show ?thesis by (simp add: DaysInMonth_def)
qed

section \<open>The next-run calculation\<close>

text \<open>
  \<open>calculateNextRun\<close> copies the base time and, for a recurring frequency, advances
  the copy while it is not after \<open>now\<close>. Each \<open>while\<close> loop of the \<open>switch\<close> is
  one recursive function; any other frequency string takes the \<open>default\<close> branch.
\<close>

lemma setDate_later: "1 \<le> n \<Longrightarrow> t < setDate z t (getDate z t + n)"
  by (simp add: setDate_getDate UTC_later)

lemma setMonth_later: "t < setMonth z t (getMonth z t + 1)"
  using DaysInMonth_range[of "LocalTime z t" "getMonth z t"]
  by (simp add: setMonth_getMonth UTC_later)

function dailyLoop :: "zone \<Rightarrow> instant \<Rightarrow> instant \<Rightarrow> instant" where
  "dailyLoop z now next =
     (if next \<le> now then dailyLoop z now (setDate z next (getDate z next + 1))
      else next)"
  by pat_completeness auto
termination
proof (relation "measure (\<lambda>(z, now, next). nat (now - next + 1))")
  show "wf (measure (\<lambda>(z, now, next). nat (now - next + 1)))" by simp
next
  fix z :: zone and now t :: int
  assume "t \<le> now"
  then show "((z, now, setDate z t (getDate z t + 1)), z, now, t)
              \<in> measure (\<lambda>(z, now, next). nat (now - next + 1))"
    using setDate_later[of 1 t z] by simp
qed

function weeklyLoop :: "zone \<Rightarrow> instant \<Rightarrow> instant \<Rightarrow> instant" where
  "weeklyLoop z now next =
     (if next \<le> now then weeklyLoop z now (setDate z next (getDate z next + 7))
      else next)"
  by pat_completeness auto
termination
proof (relation "measure (\<lambda>(z, now, next). nat (now - next + 1))")
  show "wf (measure (\<lambda>(z, now, next). nat (now - next + 1)))" by simp
next
  fix z :: zone and now t :: int
  assume "t \<le> now"
  then show "((z, now, setDate z t (getDate z t + 7)), z, now, t)
              \<in> measure (\<lambda>(z, now, next). nat (now - next + 1))"
    using setDate_later[of 7 t z] by simp
qed

function monthlyLoop :: "zone \<Rightarrow> instant \<Rightarrow> instant \<Rightarrow> instant" where
  "monthlyLoop z now next =
     (if next \<le> now then monthlyLoop z now (setMonth z next (getMonth z next + 1))
      else next)"
  by pat_completeness auto
termination
proof (relation "measure (\<lambda>(z, now, next). nat (now - next + 1))")
  show "wf (measure (\<lambda>(z, now, next). nat (now - next + 1)))" by simp
next
  fix z :: zone and now t :: int
  assume "t \<le> now"
  then show "((z, now, setMonth z t (getMonth z t + 1)), z, now, t)
              \<in> measure (\<lambda>(z, now, next). nat (now - next + 1))"
    using setMonth_later[of t z] by simp
qed

declare dailyLoop.simps [simp del] weeklyLoop.simps [simp del] monthlyLoop.simps [simp del]

definition calculateNextRun :: "zone \<Rightarrow> instant \<Rightarrow> instant \<Rightarrow> string \<Rightarrow> instant" where
  "calculateNextRun z now baseTime frequency =
     (if frequency = ''daily'' then dailyLoop z now baseTime
      else if frequency = ''weekly'' then weeklyLoop z now baseTime
      else if frequency = ''monthly'' then monthlyLoop z now baseTime
      else baseTime)"

text \<open>
  The body of the loop of a recurring frequency, and the base after \<open>k\<close> rounds of it.
\<close>

definition loopStep :: "zone \<Rightarrow> string \<Rightarrow> instant \<Rightarrow> instant" where
  "loopStep z frequency t =
     (if frequency = ''daily'' then setDate z t (getDate z t + 1)
      else if frequency = ''weekly'' then setDate z t (getDate z t + 7)
      else setMonth z t (getMonth z t + 1))"

definition advanced :: "zone \<Rightarrow> string \<Rightarrow> nat \<Rightarrow> instant \<Rightarrow> instant" where
  "advanced z frequency k base = ((loopStep z frequency) ^^ k) base"

text \<open>
  The recurrence in the words of the specification: a day is 24 hours and a week is
  seven of them, so the candidates are \<open>base + k * stepMillis\<close>; and the base advanced
  by \<open>k\<close> calendar months is the same day of the month at the same time of day,
  \<open>k\<close> months later.
\<close>

definition stepMillis :: "string \<Rightarrow> int" where
  "stepMillis frequency = (if frequency = ''daily'' then 86400000 else 604800000)"

definition addMonths :: "zone \<Rightarrow> nat \<Rightarrow> instant \<Rightarrow> instant" where
  "addMonths z k t =
     (let lt = LocalTime z t
      in UTC z (MakeDate (MakeDay (YearFromTime lt) (MonthFromTime lt + int k) (DateFromTime lt))
                         (TimeWithinDay lt)))"

text \<open>
  A zone with one daylight-saving transition, that of the eastern United States in the
  autumn of 2024: four hours behind UTC until 2024-11-03T06:00Z, five hours from then on.
  The local hour from 01:00 to 02:00 of that day occurs twice and is read with the offset
  before the transition.
\<close>

lemma offsets_close:
  fixes d :: int
  assumes "1 \<le> d"
  shows "(if a then - 14400000 else - 18000000)
           < (if b then - 14400000 else - 18000000) + d * 86400000"
  using assms by (cases a; cases b) simp_all

lift_definition easternAutumn2024 :: zone is
  "(\<lambda>t. if t < 1730613600000 then - 14400000 else - 18000000,
    \<lambda>lt. if lt < 1730599200000 then - 14400000 else - 18000000)"
  by (simp add: offsets_close)

lemma utcOffset_eastern:
  "utcOffset easternAutumn2024 t = (if t < 1730613600000 then - 14400000 else - 18000000)"
  by transfer simp

lemma localOffset_eastern:
  "localOffset easternAutumn2024 lt = (if lt < 1730599200000 then - 14400000 else - 18000000)"
  by transfer simp

lemma loopStep_later: "t < loopStep z f t"
  by (simp add: loopStep_def setDate_later setMonth_later)

lemma advanced_Suc: "advanced z f (Suc k) base = advanced z f k (loopStep z f base)"
  by (simp add: advanced_def funpow_swap1)

lemma advanced_strict_mono: "i < j \<Longrightarrow> advanced z f i base < advanced z f j base"
proof (induction j)
  case 0 then show ?case by simp
next
  case (Suc j)
  have s: "advanced z f j base < advanced z f (Suc j) base"
    using loopStep_later[of "advanced z f j base" z f] by (simp add: advanced_def)
  show ?case
  proof (cases "i = j")
    case True then show ?thesis using s by simp
  next
    case False
    then have "i < j" using Suc.prems by simp
    then show ?thesis using Suc.IH s by linarith
  qed
qed

lemma advance_loop:
  assumes eq: "\<And>t. L t = (if t \<le> now then L (loopStep z f t) else t)"
  shows "\<exists>k. L t = advanced z f k t \<and> now < L t \<and> (\<forall>j<k. advanced z f j t \<le> now)"
proof (induction "nat (now - t + 1)" arbitrary: t rule: less_induct)
  case less
  show ?case
  proof (cases "t \<le> now")
    case False
    then have "L t = t" using eq[of t] by simp
    then have "L t = advanced z f 0 t \<and> now < L t \<and> (\<forall>j<0. advanced z f j t \<le> now)"
      using False by (simp add: advanced_def)
    then show ?thesis by blast
  next
    case True
    let ?t' = "loopStep z f t"
    have "nat (now - ?t' + 1) < nat (now - t + 1)"
      using True loopStep_later[of t z f] by linarith
    from less[OF this] obtain k where k: "L ?t' = advanced z f k ?t'" "now < L ?t'"
      "\<forall>j<k. advanced z f j ?t' \<le> now" by blast
    have L: "L t = L ?t'" using eq[of t] True by simp
    have "\<forall>j<Suc k. advanced z f j t \<le> now"
    proof (intro allI impI)
      fix j assume "j < Suc k"
      show "advanced z f j t \<le> now"
      proof (cases j)
        case 0 then show ?thesis using True by (simp add: advanced_def)
      next
        case (Suc i)
        then have "i < k" using \<open>j < Suc k\<close> by simp
        then show ?thesis using k(3) Suc by (simp add: advanced_Suc)
      qed
    qed
    then have "L t = advanced z f (Suc k) t \<and> now < L t \<and> (\<forall>j<Suc k. advanced z f j t \<le> now)"
      using k L by (simp add: advanced_Suc)
    then show ?thesis by blast
  qed
qed

lemma calculateNextRun_loop:
  assumes "f = ''daily'' \<or> f = ''weekly'' \<or> f = ''monthly''"
  shows "calculateNextRun z now t f =
           (if t \<le> now then calculateNextRun z now (loopStep z f t) f else t)"
  using assms
  by (elim disjE)
     (simp_all add: calculateNextRun_def loopStep_def
        dailyLoop.simps[of z now t] weeklyLoop.simps[of z now t] monthlyLoop.simps[of z now t])

lemma calculateNextRun_first:
  assumes "f = ''daily'' \<or> f = ''weekly'' \<or> f = ''monthly''"
  shows "\<exists>k. calculateNextRun z now base f = advanced z f k base \<and>
             now < calculateNextRun z now base f \<and>
             (\<forall>j<k. advanced z f j base \<le> now) \<and>
             (\<forall>j. now < advanced z f j base \<longrightarrow> calculateNextRun z now base f \<le> advanced z f j base)"
proof -
  obtain k where k: "calculateNextRun z now base f = advanced z f k base"
      "now < calculateNextRun z now base f" "\<forall>j<k. advanced z f j base \<le> now"
    using advance_loop[of "\<lambda>t. calculateNextRun z now t f" now z f base]
      calculateNextRun_loop[OF assms] by blast
  have "calculateNextRun z now base f \<le> advanced z f j base" if j: "now < advanced z f j base" for j
  proof -
    have "\<not> j < k" using k(3) j by fastforce
    then have "k = j \<or> k < j" by linarith
    then show ?thesis using advanced_strict_mono[of k j z f base] k(1) by auto
  qed
  then show ?thesis using k by blast
qed

subsection \<open>A zone with a fixed offset\<close>

lemma loopStep_fixed:
  "loopStep (fixedZone off) ''daily'' t = t + 86400000"
  "loopStep (fixedZone off) ''weekly'' t = t + 604800000"
  by (simp_all add: loopStep_def setDate_getDate UTC_def LocalTime_def utcOffset_fixedZone
        localOffset_fixedZone msPerDay_def)

lemma advanced_fixed:
  "advanced (fixedZone off) ''daily'' k base = base + int k * 86400000"
  "advanced (fixedZone off) ''weekly'' k base = base + int k * 604800000"
  by (induction k) (simp_all add: advanced_def loopStep_fixed algebra_simps)

lemma advanced_stepMillis:
  "f = ''daily'' \<or> f = ''weekly'' \<Longrightarrow>
   advanced (fixedZone off) f k base = base + int k * stepMillis f"
  by (auto simp: advanced_fixed stepMillis_def)

text \<open>
  With a day of the month that every month has, the month step moves to the same day and
  time of day in the next month, so \<open>k\<close> rounds of the loop are \<open>k\<close> calendar months.
\<close>

lemma addMonths_fixed:
  "addMonths (fixedZone off) k t =
     MakeDate (MakeDay (YearFromTime (t + off)) (MonthFromTime (t + off) + int k)
                 (DateFromTime (t + off))) (TimeWithinDay (t + off)) - off"
  by (simp add: addMonths_def Let_def UTC_def LocalTime_def utcOffset_fixedZone
        localOffset_fixedZone)

lemma addMonths_calendar:
  assumes "DateFromTime (t + off) \<le> 28"
  shows "YearFromTime (addMonths (fixedZone off) k t + off)
           = YearFromTime (t + off) + (MonthFromTime (t + off) + int k) div 12 \<and>
         MonthFromTime (addMonths (fixedZone off) k t + off)
           = (MonthFromTime (t + off) + int k) mod 12 \<and>
         DateFromTime (addMonths (fixedZone off) k t + off) = DateFromTime (t + off) \<and>
         TimeWithinDay (addMonths (fixedZone off) k t + off) = TimeWithinDay (t + off)"
proof -
  let ?lt = "t + off"
  let ?y = "YearFromTime ?lt + (MonthFromTime ?lt + int k) div 12"
  let ?m = "(MonthFromTime ?lt + int k) mod 12"
  have e: "addMonths (fixedZone off) k t + off
             = MakeDate (MakeDay ?y ?m (DateFromTime ?lt)) (TimeWithinDay ?lt)"
    using MakeDay_normal[of "YearFromTime ?lt" "MonthFromTime ?lt + int k" "DateFromTime ?lt"]
    by (simp add: addMonths_fixed)
  have d: "DateFromTime ?lt \<le> DaysInMonth (if DaysInYear ?y = 366 then 1 else 0) ?m"
    using assms by (simp add: DaysInMonth_def)
  have c: "YearFromTime (MakeDate (MakeDay ?y ?m (DateFromTime ?lt)) (TimeWithinDay ?lt)) = ?y \<and>
           MonthFromTime (MakeDate (MakeDay ?y ?m (DateFromTime ?lt)) (TimeWithinDay ?lt)) = ?m \<and>
           DateFromTime (MakeDate (MakeDay ?y ?m (DateFromTime ?lt)) (TimeWithinDay ?lt))
             = DateFromTime ?lt"
    by (rule calendar_of_MakeDay)
       (use d DateFromTime_range[of ?lt] TimeWithinDay_range[of ?lt] in simp_all)
  have w: "TimeWithinDay (MakeDate (MakeDay ?y ?m (DateFromTime ?lt)) (TimeWithinDay ?lt))
             = TimeWithinDay ?lt"
    by (rule MakeDate_parts) (use TimeWithinDay_range[of ?lt] in simp_all)
  show ?thesis unfolding e using c w by simp
qed

lemma loopStep_addMonths:
  assumes "DateFromTime (t + off) \<le> 28"
  shows "loopStep (fixedZone off) ''monthly'' (addMonths (fixedZone off) k t)
           = addMonths (fixedZone off) (Suc k) t"
proof -
  let ?lt = "t + off"
  let ?a = "addMonths (fixedZone off) k t"
  note c = addMonths_calendar[OF assms, of k]
  have "loopStep (fixedZone off) ''monthly'' ?a
          = MakeDate (MakeDay (YearFromTime (?a + off)) (MonthFromTime (?a + off) + 1)
                        (DateFromTime (?a + off))) (TimeWithinDay (?a + off)) - off"
    by (simp add: loopStep_def setMonth_def getMonth_def Let_def UTC_def LocalTime_def
          utcOffset_fixedZone localOffset_fixedZone)
  also have "\<dots> = MakeDate (MakeDay (YearFromTime ?lt + (MonthFromTime ?lt + int k) div 12)
                        ((MonthFromTime ?lt + int k) mod 12 + 1)
                        (DateFromTime ?lt)) (TimeWithinDay ?lt) - off"
    using c by simp
  also have "MakeDay (YearFromTime ?lt + (MonthFromTime ?lt + int k) div 12)
                     ((MonthFromTime ?lt + int k) mod 12 + 1) (DateFromTime ?lt)
             = MakeDay (YearFromTime ?lt) (MonthFromTime ?lt + int k + 1) (DateFromTime ?lt)"
    by (rule MakeDay_month_Suc[symmetric])
  finally show ?thesis by (simp add: addMonths_fixed ac_simps)
qed

lemma addMonths_0: "addMonths (fixedZone off) 0 t = t"
proof -
  let ?lt = "t + off"
  have "MakeDate (MakeDay (YearFromTime ?lt) (MonthFromTime ?lt) (DateFromTime ?lt + 0))
          (TimeWithinDay ?lt) = ?lt + 0 * msPerDay"
    unfolding MakeDay_of_time by (rule MakeDate_Day)
  then show ?thesis by (simp add: addMonths_fixed)
qed

lemma advanced_addMonths:
  assumes "DateFromTime (t + off) \<le> 28"
  shows "advanced (fixedZone off) ''monthly'' k t = addMonths (fixedZone off) k t"
proof (induction k)
  case 0
  then show ?case by (simp add: advanced_def addMonths_0)
next
  case (Suc k)
  have "advanced (fixedZone off) ''monthly'' (Suc k) t
          = loopStep (fixedZone off) ''monthly'' (advanced (fixedZone off) ''monthly'' k t)"
    by (simp add: advanced_def)
  then show ?case using Suc loopStep_addMonths[OF assms, of k] by simp
qed

subsection \<open>Evaluation of the loops\<close>

lemma setMonth_fixed:
  "setMonth (fixedZone off) t (getMonth (fixedZone off) t + 1) =
     MakeDate (MakeDay (YearFromTime (t + off)) (MonthFromTime (t + off) + 1)
                 (DateFromTime (t + off))) (TimeWithinDay (t + off)) - off"
  by (simp add: setMonth_def getMonth_def Let_def UTC_def LocalTime_def utcOffset_fixedZone
        localOffset_fixedZone)

lemma dailyLoop_fixed:
  "dailyLoop (fixedZone off) now t =
     (if t \<le> now then dailyLoop (fixedZone off) now (t + 86400000) else t)"
  using loopStep_fixed(1)[of off t] dailyLoop.simps[of "fixedZone off" now t]
  by (simp add: loopStep_def)

lemma month_steps:
  "MakeDate (MakeDay (YearFromTime 1706732400000) (MonthFromTime 1706732400000 + 1)
      (DateFromTime 1706732400000)) (TimeWithinDay 1706732400000) = 1709410800000"
  "MakeDate (MakeDay (YearFromTime 1709410800000) (MonthFromTime 1709410800000 + 1)
      (DateFromTime 1709410800000)) (TimeWithinDay 1709410800000) = 1712089200000"
  "MakeDate (MakeDay (YearFromTime 1706732400000) (MonthFromTime 1706732400000 + 2)
      (DateFromTime 1706732400000)) (TimeWithinDay 1706732400000) = 1711916400000"
  "MakeDate (MakeDay (YearFromTime 1730595600000) (MonthFromTime 1730595600000 + 1)
      (DateFromTime 1730595600000)) (TimeWithinDay 1730595600000) = 1733187600000"
  by code_simp+

lemma days_of_month:
  "DateFromTime 1706732400000 = 31" "DateFromTime 1712089200000 = 2"
  "DateFromTime 1730595600000 = 3" "DateFromTime 1733187600000 = 3"
  by code_simp+

text \<open>
  As stated, claim C2 fails in both of its readings of a step. A day of the loop is a
  calendar day of the host's zone, not 24 hours: across the end of daylight-saving time
  the daily result is the base plus 25 hours, although the base plus 24 hours is already
  after \<open>now\<close>, and it is not congruent to the base modulo a day. And a month of the loop
  is taken from the instant the previous round reached: from 31 January the first round
  gives 2 March, the second 2 April, although the base advanced by two calendar months,
  31 March, is after \<open>now\<close> and earlier, and the day of the month is no longer that of
  the base.
\<close>

theorem calculateNextRun_not_congruent:
  "calculateNextRun easternAutumn2024 1730566800000 1730563200000 ''daily''
     = 1730563200000 + 25 * 3600000 \<and>
   (1730566800000 :: int) < 1730563200000 + 1 * stepMillis ''daily'' \<and>
   1730563200000 + 1 * stepMillis ''daily''
     < calculateNextRun easternAutumn2024 1730566800000 1730563200000 ''daily'' \<and>
   (calculateNextRun easternAutumn2024 1730566800000 1730563200000 ''daily'' - 1730563200000)
     mod stepMillis ''daily'' \<noteq> 0 \<and>
   calculateNextRun (fixedZone 32400000) 1710000000000 1706700000000 ''monthly'' = 1712056800000 \<and>
   addMonths (fixedZone 32400000) 2 1706700000000 = 1711884000000 \<and>
   1710000000000 < addMonths (fixedZone 32400000) 2 1706700000000 \<and>
   addMonths (fixedZone 32400000) 2 1706700000000
     < calculateNextRun (fixedZone 32400000) 1710000000000 1706700000000 ''monthly'' \<and>
   getDate (fixedZone 32400000) 1706700000000 = 31 \<and>
   getDate (fixedZone 32400000)
     (calculateNextRun (fixedZone 32400000) 1710000000000 1706700000000 ''monthly'') = 2"
proof -
  have s: "setDate easternAutumn2024 1730563200000 (getDate easternAutumn2024 1730563200000 + 1)
             = 1730653200000"
    by (simp add: setDate_getDate UTC_def LocalTime_def utcOffset_eastern localOffset_eastern
          msPerDay_def)
  have d: "calculateNextRun easternAutumn2024 1730566800000 1730563200000 ''daily'' = 1730653200000"
    by (simp add: calculateNextRun_def dailyLoop.simps[of _ _ 1730563200000] s
          dailyLoop.simps[of _ _ 1730653200000])
  have m1: "setMonth (fixedZone 32400000) 1706700000000
              (getMonth (fixedZone 32400000) 1706700000000 + 1) = 1709378400000"
    by (simp add: setMonth_fixed month_steps)
  have m2: "setMonth (fixedZone 32400000) 1709378400000
              (getMonth (fixedZone 32400000) 1709378400000 + 1) = 1712056800000"
    by (simp add: setMonth_fixed month_steps)
  have m: "calculateNextRun (fixedZone 32400000) 1710000000000 1706700000000 ''monthly''
             = 1712056800000"
    by (simp add: calculateNextRun_def monthlyLoop.simps[of _ _ 1706700000000] m1
          monthlyLoop.simps[of _ _ 1709378400000] m2 monthlyLoop.simps[of _ _ 1712056800000])
  have a: "addMonths (fixedZone 32400000) 2 1706700000000 = 1711884000000"
    by (simp add: addMonths_fixed month_steps)
  have g: "getDate (fixedZone 32400000) 1706700000000 = 31"
    "getDate (fixedZone 32400000) 1712056800000 = 2"
    by (simp_all add: getDate_def LocalTime_def utcOffset_fixedZone days_of_month)
  show ?thesis
    unfolding d m a g by (simp add: stepMillis_def)
qed

text \<open>
  Claim C2, amended. \<open>calculateNextRun\<close> returns the base unchanged for frequency
  \<open>once\<close>. For \<open>daily\<close>, \<open>weekly\<close> and \<open>monthly\<close>, in whatever zone the host is,
  the result is strictly after \<open>now\<close> and is the base after some number \<open>k \<ge> 0\<close> of
  rounds of the loop body (\<open>setDate(getDate() + 1)\<close>, \<open>setDate(getDate() + 7)\<close>,
  \<open>setMonth(getMonth() + 1)\<close>, taken in local time), all earlier rounds being at or
  before \<open>now\<close>, so that it is the first and the smallest of these instants after
  \<open>now\<close>. Where the zone has a fixed offset, the daily and weekly results are the
  smallest instant of the form base plus \<open>k\<close> times 24 hours (seven times 24 hours)
  after \<open>now\<close>, and congruent to the base modulo that step. Where the zone has a fixed
  offset and the base's day of the month is at most 28, the monthly result is the
  smallest instant after \<open>now\<close> among the base advanced by \<open>k\<close> calendar months, and
  has the base's day of the month and time of day.
\<close>

theorem calculateNextRun_first_after_now:
  "calculateNextRun z now base ''once'' = base \<and>
   (f \<in> {''daily'', ''weekly'', ''monthly''} \<longrightarrow>
      now < calculateNextRun z now base f \<and>
      (\<exists>k. calculateNextRun z now base f = advanced z f k base \<and>
           (\<forall>j<k. advanced z f j base \<le> now)) \<and>
      (\<forall>j. now < advanced z f j base \<longrightarrow>
           calculateNextRun z now base f \<le> advanced z f j base)) \<and>
   (f \<in> {''daily'', ''weekly''} \<longrightarrow>
      (\<exists>k. calculateNextRun (fixedZone off) now base f = base + int k * stepMillis f) \<and>
      (\<forall>j. now < base + int j * stepMillis f \<longrightarrow>
           calculateNextRun (fixedZone off) now base f \<le> base + int j * stepMillis f) \<and>
      (calculateNextRun (fixedZone off) now base f - base) mod stepMillis f = 0) \<and>
   (getDate (fixedZone off) base \<le> 28 \<longrightarrow>
      (\<exists>k. calculateNextRun (fixedZone off) now base ''monthly''
             = addMonths (fixedZone off) k base) \<and>
      (\<forall>j. now < addMonths (fixedZone off) j base \<longrightarrow>
           calculateNextRun (fixedZone off) now base ''monthly''
             \<le> addMonths (fixedZone off) j base) \<and>
      getDate (fixedZone off) (calculateNextRun (fixedZone off) now base ''monthly'')
        = getDate (fixedZone off) base \<and>
      TimeWithinDay (LocalTime (fixedZone off)
          (calculateNextRun (fixedZone off) now base ''monthly''))
        = TimeWithinDay (LocalTime (fixedZone off) base))"
proof -
  have c1: "calculateNextRun z now base ''once'' = base"
    by (simp add: calculateNextRun_def)
  have c2: "now < calculateNextRun z now base f \<and>
      (\<exists>k. calculateNextRun z now base f = advanced z f k base \<and>
           (\<forall>j<k. advanced z f j base \<le> now)) \<and>
      (\<forall>j. now < advanced z f j base \<longrightarrow>
           calculateNextRun z now base f \<le> advanced z f j base)"
    if "f \<in> {''daily'', ''weekly'', ''monthly''}"
  proof -
    from that have "f = ''daily'' \<or> f = ''weekly'' \<or> f = ''monthly''" by blast
    from calculateNextRun_first[OF this, of z now base] show ?thesis by blast
  qed
  have c3: "(\<exists>k. calculateNextRun (fixedZone off) now base f = base + int k * stepMillis f) \<and>
      (\<forall>j. now < base + int j * stepMillis f \<longrightarrow>
           calculateNextRun (fixedZone off) now base f \<le> base + int j * stepMillis f) \<and>
      (calculateNextRun (fixedZone off) now base f - base) mod stepMillis f = 0"
    if "f \<in> {''daily'', ''weekly''}"
  proof -
    from that have f: "f = ''daily'' \<or> f = ''weekly''" by blast
    then have "f = ''daily'' \<or> f = ''weekly'' \<or> f = ''monthly''" by blast
    from calculateNextRun_first[OF this, of "fixedZone off" now base]
    obtain k where k: "calculateNextRun (fixedZone off) now base f = base + int k * stepMillis f"
      and l: "\<forall>j. now < base + int j * stepMillis f \<longrightarrow>
                calculateNextRun (fixedZone off) now base f \<le> base + int j * stepMillis f"
      unfolding advanced_stepMillis[OF f] by blast
    have "(calculateNextRun (fixedZone off) now base f - base) mod stepMillis f = 0"
      unfolding k by simp
    then show ?thesis using k l by blast
  qed
  have c4: "(\<exists>k. calculateNextRun (fixedZone off) now base ''monthly''
             = addMonths (fixedZone off) k base) \<and>
      (\<forall>j. now < addMonths (fixedZone off) j base \<longrightarrow>
           calculateNextRun (fixedZone off) now base ''monthly''
             \<le> addMonths (fixedZone off) j base) \<and>
      getDate (fixedZone off) (calculateNextRun (fixedZone off) now base ''monthly'')
        = getDate (fixedZone off) base \<and>
      TimeWithinDay (LocalTime (fixedZone off)
          (calculateNextRun (fixedZone off) now base ''monthly''))
        = TimeWithinDay (LocalTime (fixedZone off) base)"
    if "getDate (fixedZone off) base \<le> 28"
  proof -
    from that have d: "DateFromTime (base + off) \<le> 28"
      by (simp add: getDate_def LocalTime_def utcOffset_fixedZone)
    have "''monthly'' = ''daily'' \<or> ''monthly'' = ''weekly'' \<or> ''monthly'' = ''monthly''"
      by simp
    from calculateNextRun_first[OF this, of "fixedZone off" now base]
    obtain k where k: "calculateNextRun (fixedZone off) now base ''monthly''
                         = addMonths (fixedZone off) k base"
      and l: "\<forall>j. now < addMonths (fixedZone off) j base \<longrightarrow>
                calculateNextRun (fixedZone off) now base ''monthly''
                  \<le> addMonths (fixedZone off) j base"
      unfolding advanced_addMonths[OF d] by blast
    note c = addMonths_calendar[OF d, of k]
    have "getDate (fixedZone off) (addMonths (fixedZone off) k base) = getDate (fixedZone off) base"
      using c by (simp add: getDate_def LocalTime_def utcOffset_fixedZone)
    moreover have "TimeWithinDay (LocalTime (fixedZone off) (addMonths (fixedZone off) k base))
        = TimeWithinDay (LocalTime (fixedZone off) base)"
      using c by (simp add: LocalTime_def utcOffset_fixedZone)
    ultimately show ?thesis using k l by auto
  qed
  show ?thesis using c1 c2 c3 c4 by blast
qed

theorem calculateNextRun_first_after_now_witness:
  "''daily'' \<in> {''daily'', ''weekly'', ''monthly''} \<and>
   ''daily'' \<in> {''daily'', ''weekly''} \<and>
   getDate (fixedZone 32400000) 1730563200000 = 3 \<and>
   calculateNextRun easternAutumn2024 1730566800000 1730563200000 ''daily'' = 1730653200000 \<and>
   (1730566800000 :: int) < 1730653200000 \<and>
   calculateNextRun (fixedZone 32400000) 1730566800000 1730563200000 ''daily''
     = 1730563200000 + 1 * stepMillis ''daily'' \<and>
   (calculateNextRun (fixedZone 32400000) 1730566800000 1730563200000 ''daily''
      - 1730563200000) mod stepMillis ''daily'' = 0 \<and>
   calculateNextRun (fixedZone 32400000) 1730566800000 1730563200000 ''monthly''
     = 1733155200000 \<and>
   getDate (fixedZone 32400000) 1733155200000 = 3"
proof -
  have h1: "''daily'' \<in> {''daily'', ''weekly'', ''monthly''}" by simp
  have h2: "''daily'' \<in> {''daily'', ''weekly''}" by simp
  have g: "getDate (fixedZone 32400000) 1730563200000 = 3"
    by (simp add: getDate_def LocalTime_def utcOffset_fixedZone days_of_month)
  then have h3: "getDate (fixedZone 32400000) 1730563200000 \<le> 28" by simp
  have s: "setDate easternAutumn2024 1730563200000 (getDate easternAutumn2024 1730563200000 + 1)
             = 1730653200000"
    by (simp add: setDate_getDate UTC_def LocalTime_def utcOffset_eastern localOffset_eastern
          msPerDay_def)
  have d: "calculateNextRun easternAutumn2024 1730566800000 1730563200000 ''daily'' = 1730653200000"
    by (simp add: calculateNextRun_def dailyLoop.simps[of _ _ 1730563200000] s
          dailyLoop.simps[of _ _ 1730653200000])
  have e: "calculateNextRun (fixedZone 32400000) 1730566800000 1730563200000 ''daily''
             = 1730649600000"
    by (simp add: calculateNextRun_def dailyLoop_fixed)
  have m1: "setMonth (fixedZone 32400000) 1730563200000
              (getMonth (fixedZone 32400000) 1730563200000 + 1) = 1733155200000"
    by (simp add: setMonth_fixed month_steps)
  have m: "calculateNextRun (fixedZone 32400000) 1730566800000 1730563200000 ''monthly''
             = 1733155200000"
    by (simp add: calculateNextRun_def monthlyLoop.simps[of _ _ 1730563200000] m1
          monthlyLoop.simps[of _ _ 1733155200000])
  note t = calculateNextRun_first_after_now[of easternAutumn2024 1730566800000 1730563200000
      "''daily''" 32400000]
  from t h1 have a: "1730566800000
      < calculateNextRun easternAutumn2024 1730566800000 1730563200000 ''daily''"
    by blast
  from t h2 have b: "(calculateNextRun (fixedZone 32400000) 1730566800000 1730563200000 ''daily''
      - 1730563200000) mod stepMillis ''daily'' = 0"
    by blast
  from t h3 have c: "getDate (fixedZone 32400000)
        (calculateNextRun (fixedZone 32400000) 1730566800000 1730563200000 ''monthly'')
      = getDate (fixedZone 32400000) 1730563200000"
    by blast
  have a': "(1730566800000 :: int) < 1730653200000" using a unfolding d .
  have c': "getDate (fixedZone 32400000) 1733155200000 = 3" using c unfolding m g .
  have e': "calculateNextRun (fixedZone 32400000) 1730566800000 1730563200000 ''daily''
     = 1730563200000 + 1 * stepMillis ''daily''"
    unfolding e by (simp add: stepMillis_def)
  show ?thesis
    using h1 h2 g d a' e' b m c' by blast
qed

section \<open>The store and the schedule executor\<close>

text \<open>
  The relational store is a record of tables, each a list of rows in insertion order.
  A raised error is its message. Everything the executor cannot decide itself is an
  input: whether a store call raises, what the generative service returns, what
  \<open>Math.random\<close> draws, and the clock. All clock reads of one sweep step are taken
  at the instant \<open>now\<close>.
\<close>

type_synonym error = string

record schedule =
  scheduleId :: string
  userId :: string
  name :: string
  time :: instant
  frequency :: string
  isActive :: bool
  lastRun :: "instant option"
  nextRun :: "instant option"
  runCount :: int

text \<open>
  Post text is kept symbolic: which template produced it. The greeting and fallback
  texts and the topic list are fixed strings of the source.
\<close>

datatype content =
    Greeting nat
  | Generated string
  | FallbackText
  | GenericText string instant

record post =
  postId :: nat
  postUserId :: string
  postContent :: content
  status :: string
  publishedAt :: "instant option"
  threadsPostId :: "string option"
  views :: int
  engagements :: int
  postError :: "string option"

record adminLog =
  action :: string
  details :: string

record aIGeneration =
  genUserId :: string
  prompt :: nat
  generatedContent :: string
  model :: string
  tokensUsed :: int
  genCreatedAt :: instant

text \<open>The text of a notification is kept symbolic, like post text.\<close>

datatype notice =
    RateLimitReached string string int
  | TokenLimitReached int
  | TokenUsageWarning int

record notification =
  title :: string
  notice :: notice
  ntype :: string
  priority :: string
  category :: string
  isRead :: bool
  notifUserId :: "string option"
  notifCreatedAt :: instant

record usage =
  count :: int
  reset :: instant

record world =
  schedules :: "schedule list"
  posts :: "post list"
  adminLogs :: "adminLog list"
  aIGenerations :: "aIGeneration list"
  notifications :: "notification list"
  systemSettings :: "(string \<times> string) list"
  generateCalls :: "nat list"
  isRunning :: bool
  usageCache :: "(string \<times> usage) list"

text \<open>
  \<open>generateCalls\<close> is the trace of requests sent to the generative service (the topic
  index of each); \<open>isRunning\<close> is the run flag of the executor singleton and
  \<open>usageCache\<close> the counter map of the rate-limiter singleton.
\<close>

record ScheduleExecutionResult =
  resScheduleId :: string
  success :: bool
  message :: string
  resError :: "string option"
  resPostId :: "nat option"
  resThreadsPostId :: "string option"

text \<open>Inputs of one call of \<open>createAndPostContent\<close>.\<close>

record capEnv =
  postCreate :: "error option"
  postUpdate :: "error option"
  logCreate :: "error option"
  rndViews :: rat
  rndEngagements :: rat

text \<open>
  Inputs of the processing of one schedule: \<open>Some e\<close> means the store call raises
  \<open>e\<close>; \<open>generateContent\<close> is what the generative service answers.
\<close>

record schedEnv =
  rndChoice :: rat
  generateContent :: "error + string"
  rndTokens :: rat
  generationCreate :: "error option"
  primary :: capEnv
  fallback :: capEnv
  errorLogCreate :: "error option"
  scheduleUpdate :: "error option"

record env =
  hostZone :: zone
  threadsAccessToken :: "string option"
  defaultViews :: int
  defaultEngagements :: int
  scheduleFindMany :: "error option"
  perSchedule :: "string \<Rightarrow> schedEnv"

subsection \<open>Strings\<close>

definition digitChar :: "nat \<Rightarrow> char" where
  "digitChar d = ''0123456789'' ! d"

function decimal :: "nat \<Rightarrow> string" where
  "decimal n =
     (if n < 10 then [digitChar n]
      else decimal (n div 10) @ [digitChar (n mod 10)])"
  by pat_completeness auto
termination
  by (relation "measure id") auto

declare decimal.simps [simp del]

definition instantString :: "instant \<Rightarrow> string" where
  "instantString t = (if t < 0 then ''-'' @ decimal (nat (- t)) else decimal (nat t))"

text \<open>The two schedule names the executor dispatches on, as UTF-8 bytes.\<close>

definition greetingName :: string where
  "greetingName =
     [CHR 0xE6, CHR 0xAF, CHR 0x8E, CHR 0xE6, CHR 0x97, CHR 0xA5, CHR 0xE3, CHR 0x81,
      CHR 0xAE, CHR 0xE6, CHR 0x8C, CHR 0xA8, CHR 0xE6, CHR 0x8B, CHR 0xB6, CHR 0xE6,
      CHR 0x8A, CHR 0x95, CHR 0xE7, CHR 0xA8, CHR 0xBF]"

definition aiPostName :: string where
  "aiPostName =
     [CHR 0x41, CHR 0x49, CHR 0xE8, CHR 0x87, CHR 0xAA, CHR 0xE5, CHR 0x8B, CHR 0x95,
      CHR 0xE6, CHR 0x8A, CHR 0x95, CHR 0xE7, CHR 0xA8, CHR 0xBF]"

subsection \<open>The pipeline of one schedule\<close>

type_synonym 'a outcome = "(error + 'a) \<times> world"

definition randomBelow :: "rat \<Rightarrow> int \<Rightarrow> int" where
  "randomBelow r n = \<lfloor>r * of_int n\<rfloor>"

definition updatePost :: "nat \<Rightarrow> (post \<Rightarrow> post) \<Rightarrow> post list \<Rightarrow> post list" where
  "updatePost pid f ps = map (\<lambda>p. if postId p = pid then f p else p) ps"

text \<open>
  \<open>createAndPostContent\<close>: create the post row as published, pick the remote
  identifier, write it back together with the two counters, log. The \<open>try\<close> block
  around the remote identifier holds a single assignment, which cannot raise, so its
  \<open>catch\<close> branch is never taken; the outer \<open>catch\<close> rethrows.
\<close>

definition createAndPostContent ::
  "env \<Rightarrow> capEnv \<Rightarrow> instant \<Rightarrow> schedule \<Rightarrow> content \<Rightarrow> string \<Rightarrow> world
     \<Rightarrow> ScheduleExecutionResult outcome" where
  "createAndPostContent ev ce now s c ty w =
     (case postCreate ce of
        Some e \<Rightarrow> (Inl e, w)
      | None \<Rightarrow>
          let pid = length (posts w);
              p = \<lparr>postId = pid, postUserId = userId s, postContent = c,
                   status = ''published'', publishedAt = Some now, threadsPostId = None,
                   views = defaultViews ev, engagements = defaultEngagements ev,
                   postError = None\<rparr>;
              w1 = w\<lparr>posts := posts w @ [p]\<rparr>;
              tid = (case threadsAccessToken ev of
                       None \<Rightarrow> ''demo_'' @ instantString now
                     | Some tok \<Rightarrow>
                         if tok \<noteq> [] then ''actual_'' @ instantString now
                         else ''demo_'' @ instantString now)
          in (case postUpdate ce of
               Some e \<Rightarrow> (Inl e, w1)
             | None \<Rightarrow>
                 let w2 = w1\<lparr>posts :=
                            updatePost pid
                              (\<lambda>q. q\<lparr>threadsPostId := Some tid,
                                       views := randomBelow (rndViews ce) 50,
                                       engagements := randomBelow (rndEngagements ce) 10\<rparr>)
                              (posts w1)\<rparr>
                 in (case logCreate ce of
                      Some e \<Rightarrow> (Inl e, w2)
                    | None \<Rightarrow>
                        (Inr \<lparr>resScheduleId = scheduleId s, success = True,
                               message = ty @ '' executed successfully'',
                               resError = None, resPostId = Some pid,
                               resThreadsPostId = Some tid\<rparr>,
                         w2\<lparr>adminLogs := adminLogs w2 @
                              [\<lparr>action = ''schedule_executed'',
                                details = ''Schedule executed successfully: '' @ name s
                                  @ '' - Post ID: '' @ decimal pid
                                  @ '' - Threads ID: '' @ tid\<rparr>]\<rparr>))))"

definition executeGreetingPost ::
  "env \<Rightarrow> schedEnv \<Rightarrow> instant \<Rightarrow> schedule \<Rightarrow> world \<Rightarrow> ScheduleExecutionResult outcome" where
  "executeGreetingPost ev se now s w =
     createAndPostContent ev (primary se) now s
       (Greeting (nat (randomBelow (rndChoice se) 5))) ''greeting_post'' w"

text \<open>
  \<open>executeAIPost\<close>: whatever raises inside the \<open>try\<close> (the generation request, the
  write of the generation record, or the first \<open>createAndPostContent\<close>) leads to the
  \<open>catch\<close>, which posts the fixed fallback text.
\<close>

definition executeAIPost ::
  "env \<Rightarrow> schedEnv \<Rightarrow> instant \<Rightarrow> schedule \<Rightarrow> world \<Rightarrow> ScheduleExecutionResult outcome" where
  "executeAIPost ev se now s w =
     (let topic = nat (randomBelow (rndChoice se) 5);
          w1 = w\<lparr>generateCalls := generateCalls w @ [topic]\<rparr>;
          viaFallback = (\<lambda>w'. createAndPostContent ev (fallback se) now s
                                 FallbackText ''fallback_post'' w')
      in (case generateContent se of
           Inl e \<Rightarrow> viaFallback w1
         | Inr text \<Rightarrow>
             (case generationCreate se of
                Some e \<Rightarrow> viaFallback w1
              | None \<Rightarrow>
                  let w2 = w1\<lparr>aIGenerations := aIGenerations w1 @
                             [\<lparr>genUserId = userId s, prompt = topic,
                               generatedContent = text, model = ''gemini-1.5-flash'',
                               tokensUsed = randomBelow (rndTokens se) 500 + 100,
                               genCreatedAt = now\<rparr>]\<rparr>
                  in (case createAndPostContent ev (primary se) now s
                             (Generated text) ''ai_post'' w2 of
                        (Inr r, w3) \<Rightarrow> (Inr r, w3)
                      | (Inl e, w3) \<Rightarrow> viaFallback w3))))"

definition executeGenericPost ::
  "env \<Rightarrow> schedEnv \<Rightarrow> instant \<Rightarrow> schedule \<Rightarrow> world \<Rightarrow> ScheduleExecutionResult outcome" where
  "executeGenericPost ev se now s w =
     createAndPostContent ev (primary se) now s (GenericText (name s) now) ''generic_post'' w"

definition failedResult :: "schedule \<Rightarrow> error \<Rightarrow> ScheduleExecutionResult" where
  "failedResult s e =
     \<lparr>resScheduleId = scheduleId s, success = False, message = ''Execution failed'',
      resError = Some e, resPostId = None, resThreadsPostId = None\<rparr>"

text \<open>
  \<open>executeSchedule\<close>: dispatch on the schedule's name; an error of the pipeline is
  logged and turned into a failed result. Only a failure of that log write escapes.
\<close>

definition executeSchedule ::
  "env \<Rightarrow> instant \<Rightarrow> schedule \<Rightarrow> world \<Rightarrow> ScheduleExecutionResult outcome" where
  "executeSchedule ev now s w =
     (let se = perSchedule ev (scheduleId s)
      in (case (if name s = greetingName then executeGreetingPost ev se now s w
                else if name s = aiPostName then executeAIPost ev se now s w
                else executeGenericPost ev se now s w) of
           (Inr r, w1) \<Rightarrow> (Inr r, w1)
         | (Inl e, w1) \<Rightarrow>
             (case errorLogCreate se of
                Some e' \<Rightarrow> (Inl e', w1)
              | None \<Rightarrow>
                  (Inr (failedResult s e),
                   w1\<lparr>adminLogs := adminLogs w1 @
                        [\<lparr>action = ''schedule_execution_failed'',
                          details = ''Schedule execution failed: '' @ name s
                            @ '' - '' @ e\<rparr>]\<rparr>))))"

text \<open>
  \<open>updateScheduleAfterExecution\<close>: the update data are built from the schedule as it
  was read by the due query; \<open>nextRun\<close> is recomputed only after a successful run of a
  schedule that is not \<open>once\<close>, and a \<open>once\<close> schedule is deactivated. The store raises
  when no row has the identifier.
\<close>

definition updateData :: "env \<Rightarrow> instant \<Rightarrow> schedule \<Rightarrow> bool \<Rightarrow> schedule \<Rightarrow> schedule" where
  "updateData ev now s ok row =
     (let row1 = row\<lparr>lastRun := Some now, runCount := runCount s + 1\<rparr>
      in if ok \<and> frequency s \<noteq> ''once''
         then row1\<lparr>nextRun := Some (calculateNextRun (hostZone ev) now (time s) (frequency s))\<rparr>
         else if frequency s = ''once'' then row1\<lparr>isActive := False\<rparr>
         else row1)"

definition updateScheduleAfterExecution ::
  "env \<Rightarrow> instant \<Rightarrow> schedule \<Rightarrow> bool \<Rightarrow> world \<Rightarrow> unit outcome" where
  "updateScheduleAfterExecution ev now s ok w =
     (case scheduleUpdate (perSchedule ev (scheduleId s)) of
        Some e \<Rightarrow> (Inl e, w)
      | None \<Rightarrow>
          if \<not> (\<exists>row \<in> set (schedules w). scheduleId row = scheduleId s)
          then (Inl ''Record to update not found.'', w)
          else (Inr (),
                w\<lparr>schedules :=
                    map (\<lambda>row. if scheduleId row = scheduleId s
                                then updateData ev now s ok row else row)
                        (schedules w)\<rparr>))"

text \<open>
  The body of the sweep's \<open>for\<close> loop: when \<open>executeSchedule\<close> raises, the update is
  skipped; when the update raises, the result already pushed is followed by a failed
  one.
\<close>

definition processSchedule ::
  "env \<Rightarrow> instant \<Rightarrow> schedule \<Rightarrow> ScheduleExecutionResult list \<times> world
     \<Rightarrow> ScheduleExecutionResult list \<times> world" where
  "processSchedule ev now s acc =
     (case acc of (results, w) \<Rightarrow>
        (case executeSchedule ev now s w of
           (Inl e, w1) \<Rightarrow> (results @ [failedResult s e], w1)
         | (Inr r, w1) \<Rightarrow>
             (case updateScheduleAfterExecution ev now s (success r) w1 of
                (Inl e, w2) \<Rightarrow> (results @ [r, failedResult s e], w2)
              | (Inr u, w2) \<Rightarrow> (results @ [r], w2))))"

definition dueKey :: "schedule \<Rightarrow> instant" where
  "dueKey s = (case nextRun s of Some t \<Rightarrow> t | None \<Rightarrow> 0)"

definition isDue :: "instant \<Rightarrow> schedule \<Rightarrow> bool" where
  "isDue now s = (isActive s \<and> (case nextRun s of Some t \<Rightarrow> t \<le> now | None \<Rightarrow> False))"

definition getDueSchedules :: "env \<Rightarrow> instant \<Rightarrow> world \<Rightarrow> error + schedule list" where
  "getDueSchedules ev now w =
     (case scheduleFindMany ev of
        Some e \<Rightarrow> Inl e
      | None \<Rightarrow> Inr (sort_key dueKey (filter (isDue now) (schedules w))))"

definition executeSchedules ::
  "env \<Rightarrow> instant \<Rightarrow> world \<Rightarrow> ScheduleExecutionResult list outcome" where
  "executeSchedules ev now w =
     (if isRunning w then (Inr [], w)
      else
        let w1 = w\<lparr>isRunning := True\<rparr>
        in (case getDueSchedules ev now w1 of
             Inl e \<Rightarrow> (Inl e, w1\<lparr>isRunning := False\<rparr>)
           | Inr due \<Rightarrow>
               (case foldl (\<lambda>acc s. processSchedule ev now s acc) ([], w1) due of
                  (results, w2) \<Rightarrow> (Inr results, w2\<lparr>isRunning := False\<rparr>))))"

section \<open>The rate limiter, the token budget and the maintenance gate\<close>

text \<open>
  Inputs of the governance layer: \<open>Some e\<close> means the store call raises \<open>e\<close>.
  \<open>parseScheduled\<close> stands for \<open>JSON.parse\<close> followed by the two \<open>Date\<close>
  constructions of the scheduled-maintenance window: \<open>None\<close> when that raises,
  otherwise start and end, each \<open>None\<close> for an invalid date.
\<close>

record govEnv =
  govZone :: zone
  settingsFindUnique :: "error option"
  settingsFindMany :: "error option"
  usageLogCreate :: "error option"
  notificationFindFirst :: "error option"
  notificationCreate :: "error option"
  generationAggregate :: "error option"
  parseScheduled :: "string \<Rightarrow> (instant option \<times> instant option) option"

subsection \<open>Numbers read from settings\<close>

datatype num = NaN | Num int

definition isWhite :: "char \<Rightarrow> bool" where
  "isWhite c = (c \<in> set [CHR '' '', CHR 0x09, CHR 0x0A, CHR 0x0B, CHR 0x0C, CHR 0x0D])"

definition digitOf :: "char \<Rightarrow> nat option" where
  "digitOf c =
     (let k = (of_char c :: nat)
      in if 48 \<le> k \<and> k \<le> 57 then Some (k - 48)
         else if 97 \<le> k \<and> k \<le> 122 then Some (k - 87)
         else if 65 \<le> k \<and> k \<le> 90 then Some (k - 55)
         else None)"

definition radixDigits :: "nat \<Rightarrow> string \<Rightarrow> nat list" where
  "radixDigits R cs =
     map (\<lambda>c. case digitOf c of Some d \<Rightarrow> d | None \<Rightarrow> 0)
         (takeWhile (\<lambda>c. case digitOf c of Some d \<Rightarrow> d < R | None \<Rightarrow> False) cs)"

text \<open>
  \<open>parseInt\<close> with no radix argument: leading white space, an optional sign, an
  optional \<open>0x\<close> prefix, then the longest run of digits; \<open>NaN\<close> when there is none.
  (White space beyond ASCII and the rounding of values past \<open>2^53\<close> are left out.)
\<close>

definition parseInt :: "string \<Rightarrow> num" where
  "parseInt str =
     (let s1 = dropWhile isWhite str;
          neg = (take 1 s1 = ''-'');
          s2 = (if take 1 s1 = ''-'' \<or> take 1 s1 = ''+'' then drop 1 s1 else s1);
          hex = (take 2 s2 = ''0x'' \<or> take 2 s2 = ''0X'');
          R = (if hex then 16 else 10);
          s3 = (if hex then drop 2 s2 else s2);
          ds = radixDigits R s3
      in if ds = [] then NaN
         else Num ((if neg then - 1 else 1) * int (foldl (\<lambda>a d. a * R + d) 0 ds)))"

definition findSetting :: "world \<Rightarrow> string \<Rightarrow> string option" where
  "findSetting w k = map_of (systemSettings w) k"

subsection \<open>The call-rate check\<close>

record RateLimitResult =
  allowed :: bool
  limit :: int
  remaining :: int
  resetAt :: instant
  retryAfter :: "int option"

definition apiLimitTitle :: string where
  "apiLimitTitle =
     [CHR 0x41, CHR 0x50, CHR 0x49, CHR 0xE5, CHR 0x88, CHR 0xB6, CHR 0xE9, CHR 0x99,
      CHR 0x90, CHR 0xE8, CHR 0xAD, CHR 0xA6, CHR 0xE5, CHR 0x91, CHR 0x8A]"

definition tokenLimitTitle :: string where
  "tokenLimitTitle =
     [CHR 0xE3, CHR 0x83, CHR 0x88, CHR 0xE3, CHR 0x83, CHR 0xBC, CHR 0xE3, CHR 0x82,
      CHR 0xAF, CHR 0xE3, CHR 0x83, CHR 0xB3, CHR 0xE5, CHR 0x88, CHR 0xB6, CHR 0xE9,
      CHR 0x99, CHR 0x90, CHR 0xE8, CHR 0xAD, CHR 0xA6, CHR 0xE5, CHR 0x91, CHR 0x8A]"

definition tokenWarningTitle :: string where
  "tokenWarningTitle =
     [CHR 0xE3, CHR 0x83, CHR 0x88, CHR 0xE3, CHR 0x83, CHR 0xBC, CHR 0xE3, CHR 0x82,
      CHR 0xAF, CHR 0xE3, CHR 0x83, CHR 0xB3, CHR 0xE4, CHR 0xBD, CHR 0xBF, CHR 0xE7,
      CHR 0x94, CHR 0xA8, CHR 0xE9, CHR 0x87, CHR 0x8F, CHR 0xE8, CHR 0xAD, CHR 0xA6,
      CHR 0xE5, CHR 0x91, CHR 0x8A]"

text \<open>
  \<open>getCustomRateLimit\<close>: the global setting wins over the endpoint's own; a raised
  lookup is caught and gives \<open>null\<close> (\<open>None\<close>).
\<close>

definition getCustomRateLimit :: "govEnv \<Rightarrow> string \<Rightarrow> world \<Rightarrow> num option" where
  "getCustomRateLimit gv endpoint w =
     (case settingsFindUnique gv of
        Some e \<Rightarrow> None
      | None \<Rightarrow>
          (case findSetting w ''api_rate_limit'' of
             Some v \<Rightarrow> Some (parseInt v)
           | None \<Rightarrow>
               (case findSetting w
                       (''api_rate_limit_'' @
                          map (\<lambda>c. if c = CHR ''/'' then CHR ''_'' else c) endpoint) of
                  Some v \<Rightarrow> Some (parseInt v)
                | None \<Rightarrow> None)))"

text \<open>\<open>customLimit || limitPerHour\<close>: \<open>null\<close>, \<open>NaN\<close> and \<open>0\<close> are falsy.\<close>

definition actualLimit :: "govEnv \<Rightarrow> string \<Rightarrow> int \<Rightarrow> world \<Rightarrow> int" where
  "actualLimit gv endpoint limitPerHour w =
     (case getCustomRateLimit gv endpoint w of
        Some (Num n) \<Rightarrow> if n \<noteq> 0 then n else limitPerHour
      | Some NaN \<Rightarrow> limitPerHour
      | None \<Rightarrow> limitPerHour)"

text \<open>The usage record is one admin-log row; its JSON text is abbreviated.\<close>

definition recordApiUsage ::
  "govEnv \<Rightarrow> instant \<Rightarrow> string \<Rightarrow> string \<Rightarrow> string \<Rightarrow> world \<Rightarrow> world" where
  "recordApiUsage gv now identifier endpoint method w =
     (case usageLogCreate gv of
        Some e \<Rightarrow> w
      | None \<Rightarrow>
          w\<lparr>adminLogs := adminLogs w @
               [\<lparr>action = ''api_usage'',
                 details = identifier @ '' '' @ endpoint @ '' '' @ method @ '' ''
                   @ instantString now\<rparr>]\<rparr>)"

definition recentLimitWarning :: "instant \<Rightarrow> notification \<Rightarrow> bool" where
  "recentLimitWarning now n =
     (ntype n = ''warning'' \<and> category n = ''api'' \<and> \<not> isRead n \<and>
      title n = apiLimitTitle \<and> now - 3600000 \<le> notifCreatedAt n)"

definition createRateLimitNotification ::
  "govEnv \<Rightarrow> instant \<Rightarrow> string \<Rightarrow> string \<Rightarrow> int \<Rightarrow> world \<Rightarrow> world" where
  "createRateLimitNotification gv now identifier endpoint lmt w =
     (case notificationFindFirst gv of
        Some e \<Rightarrow> w
      | None \<Rightarrow>
          if list_ex (recentLimitWarning now) (notifications w) then w
          else (case notificationCreate gv of
                  Some e \<Rightarrow> w
                | None \<Rightarrow>
                    w\<lparr>notifications := notifications w @
                         [\<lparr>title = apiLimitTitle,
                           notice = RateLimitReached identifier endpoint lmt,
                           ntype = ''warning'', priority = ''high'', category = ''api'',
                           isRead = False, notifUserId = None,
                           notifCreatedAt = now\<rparr>]\<rparr>))"

definition cacheKey :: "string \<Rightarrow> string \<Rightarrow> string \<Rightarrow> string" where
  "cacheKey identifier endpoint method = identifier @ '':'' @ endpoint @ '':'' @ method"

definition cacheGet :: "world \<Rightarrow> string \<Rightarrow> usage option" where
  "cacheGet w k = map_of (usageCache w) k"

definition cacheSet :: "string \<Rightarrow> usage \<Rightarrow> world \<Rightarrow> world" where
  "cacheSet k u w =
     w\<lparr>usageCache :=
         (if list_ex (\<lambda>kv. fst kv = k) (usageCache w)
          then map (\<lambda>kv. if fst kv = k then (k, u) else kv) (usageCache w)
          else usageCache w @ [(k, u)])\<rparr>"

definition ceilDiv :: "int \<Rightarrow> int \<Rightarrow> int" where
  "ceilDiv a b = - ((- a) div b)"

definition checkRateLimit ::
  "govEnv \<Rightarrow> instant \<Rightarrow> string \<Rightarrow> string \<Rightarrow> string \<Rightarrow> int \<Rightarrow> world
     \<Rightarrow> RateLimitResult \<times> world" where
  "checkRateLimit gv now identifier endpoint method limitPerHour w =
     (let key = cacheKey identifier endpoint method;
          resetTime = now + 60 * 60 * 1000;
          fresh = \<lparr>count = 0, reset = resetTime\<rparr>;
          usage0 = (case cacheGet w key of
                      None \<Rightarrow> fresh
                    | Some u \<Rightarrow> if reset u < now then fresh else u);
          lmt = actualLimit gv endpoint limitPerHour w;
          usage1 = usage0\<lparr>count := count usage0 + 1\<rparr>;
          w1 = cacheSet key usage1 w;
          w2 = recordApiUsage gv now identifier endpoint method w1;
          rem = max 0 (lmt - count usage1);
          ok = (count usage1 \<le> lmt);
          w3 = (if \<not> ok then createRateLimitNotification gv now identifier endpoint lmt w2
                else w2)
      in (\<lparr>allowed = ok, limit = lmt, remaining = rem, resetAt = reset usage1,
           retryAfter = (if ok then None else Some (ceilDiv (reset usage1 - now) 1000))\<rparr>,
          w3))"

subsection \<open>Number arithmetic\<close>

text \<open>
  Token counts are Numbers, double-precision floating-point values, and the budget check
  adds, multiplies and compares them as such: the result of an operation is the exact
  result rounded to the nearest value with 53 significant bits, a tie going to the value
  whose last bit is even. \<open>binade q\<close> is the exponent of the power of two at or below
  \<open>\<bar>q\<bar>\<close>, and \<open>pointEight\<close> is the Number that the literal \<open>0.8\<close> denotes. Token
  counts are integers, so no value here is small enough to be subnormal; the overflow to
  \<open>Infinity\<close> of magnitudes from \<open>2^1024\<close> on is not modelled.
\<close>

fun bitLength :: "nat \<Rightarrow> nat" where
  "bitLength n = (if n = 0 then 0 else Suc (bitLength (n div 2)))"

declare bitLength.simps [simp del]

definition pow2 :: "int \<Rightarrow> rat" where
  "pow2 e = (if 0 \<le> e then 2 ^ nat e else 1 / 2 ^ nat (- e))"

definition binade :: "rat \<Rightarrow> int" where
  "binade q =
     (if 1 \<le> \<bar>q\<bar> then int (bitLength (nat \<lfloor>\<bar>q\<bar>\<rfloor>)) - 1
      else - int (bitLength (nat (\<lceil>1 / \<bar>q\<bar>\<rceil> - 1))))"

definition roundHalfEven :: "rat \<Rightarrow> int" where
  "roundHalfEven x =
     (let f = \<lfloor>x\<rfloor>; r = x - of_int f
      in if r < 1 / 2 then f
         else if 1 / 2 < r then f + 1
         else if even f then f else f + 1)"

definition roundDouble :: "rat \<Rightarrow> rat" where
  "roundDouble q =
     (if q = 0 then 0
      else let u = pow2 (binade q - 52) in of_int (roundHalfEven (q / u)) * u)"

definition pointEight :: rat where
  "pointEight = 3602879701896397 / 4503599627370496"

subsection \<open>The daily token budget\<close>

text \<open>\<open>setHours(0, 0, 0, 0)\<close>: the start of the local day of \<open>now\<close>.\<close>

definition startOfToday :: "zone \<Rightarrow> instant \<Rightarrow> instant" where
  "startOfToday z now = UTC z (MakeDate (Day (LocalTime z now)) 0)"

definition todayUsage :: "govEnv \<Rightarrow> instant \<Rightarrow> string \<Rightarrow> world \<Rightarrow> int" where
  "todayUsage gv now uid w =
     sum_list (map tokensUsed
       (filter (\<lambda>g. genUserId g = uid \<and> startOfToday (govZone gv) now \<le> genCreatedAt g)
               (aIGenerations w)))"

definition maxTokensPerDay :: "world \<Rightarrow> num" where
  "maxTokensPerDay w =
     (case findSetting w ''max_tokens_per_day'' of
        Some v \<Rightarrow> parseInt v
      | None \<Rightarrow> Num 50000)"

text \<open>The two notifications of the budget check, with the number their message shows.\<close>

definition tokenLimitNotification :: "string \<Rightarrow> int \<Rightarrow> instant \<Rightarrow> notification" where
  "tokenLimitNotification uid shown now =
     \<lparr>title = tokenLimitTitle, notice = TokenLimitReached shown, ntype = ''error'',
      priority = ''urgent'', category = ''api'', isRead = False,
      notifUserId = Some uid, notifCreatedAt = now\<rparr>"

definition tokenWarningNotification :: "string \<Rightarrow> int \<Rightarrow> instant \<Rightarrow> notification" where
  "tokenWarningNotification uid shown now =
     \<lparr>title = tokenWarningTitle, notice = TokenUsageWarning shown, ntype = ''warning'',
      priority = ''high'', category = ''api'', isRead = False,
      notifUserId = Some uid, notifCreatedAt = now\<rparr>"

text \<open>
  \<open>trackTokenUsage\<close>: the whole body is one \<open>try\<close> whose \<open>catch\<close> returns
  \<open>true\<close>. The sum of today's records and the budget read from the setting become
  Numbers, \<open>newTotal\<close> is their rounded sum with the estimate, and the threshold of the
  warning is the rounded product \<open>maxTokensPerDay * 0.8\<close>; every comparison with
  \<open>NaN\<close> is false. The check writes notifications only.
\<close>

definition trackTokenUsage ::
  "govEnv \<Rightarrow> instant \<Rightarrow> string \<Rightarrow> int \<Rightarrow> world \<Rightarrow> bool \<times> world" where
  "trackTokenUsage gv now uid tokens w =
     (case settingsFindUnique gv of
        Some e \<Rightarrow> (True, w)
      | None \<Rightarrow>
          (case generationAggregate gv of
             Some e \<Rightarrow> (True, w)
           | None \<Rightarrow>
               (let currentUsage = roundDouble (of_int (todayUsage gv now uid w));
                    newTotal = roundDouble (currentUsage + of_int tokens)
                in case maxTokensPerDay w of
                     NaN \<Rightarrow> (True, w)
                   | Num mx \<Rightarrow>
                       (let budget = roundDouble (of_int mx);
                            threshold = roundDouble (budget * pointEight)
                        in if newTotal > budget then
                             (case notificationCreate gv of
                                Some e \<Rightarrow> (True, w)
                              | None \<Rightarrow>
                                  (False,
                                   w\<lparr>notifications := notifications w @
                                        [tokenLimitNotification uid \<lfloor>budget\<rfloor> now]\<rparr>))
                           else if currentUsage < threshold \<and> newTotal \<ge> threshold then
                             (case notificationCreate gv of
                                Some e \<Rightarrow> (True, w)
                              | None \<Rightarrow>
                                  (True,
                                   w\<lparr>notifications := notifications w @
                                        [tokenWarningNotification uid \<lfloor>threshold\<rfloor> now]\<rparr>))
                           else (True, w)))))"

subsection \<open>The middlewares\<close>

record request =
  url :: string
  pathname :: string
  reqMethod :: string

record response =
  statusCode :: nat
  body :: string
  headers :: "(string \<times> string) list"

type_synonym handler = "world \<Rightarrow> response outcome"

text \<open>\<open>headers.set\<close>: replace the value of a header that is there, else append.\<close>

definition setHeader :: "string \<Rightarrow> string \<Rightarrow> response \<Rightarrow> response" where
  "setHeader k v r =
     r\<lparr>headers :=
         (if list_ex (\<lambda>h. fst h = k) (headers r)
          then map (\<lambda>h. if fst h = k then (k, v) else h) (headers r)
          else headers r @ [(k, v)])\<rparr>"

definition rateLimitHeaders :: "RateLimitResult \<Rightarrow> response \<Rightarrow> response" where
  "rateLimitHeaders res r =
     (let r1 = setHeader ''X-RateLimit-Limit'' (instantString (limit res)) r;
          r2 = setHeader ''X-RateLimit-Remaining'' (instantString (remaining res)) r1;
          r3 = setHeader ''X-RateLimit-Reset'' (instantString (resetAt res)) r2
      in case retryAfter res of
           None \<Rightarrow> r3
         | Some n \<Rightarrow> if n \<noteq> 0 then setHeader ''Retry-After'' (instantString n) r3 else r3)"

definition tooManyRequests :: response where
  "tooManyRequests =
     \<lparr>statusCode = 429, body = ''Too Many Requests'',
      headers = [(''Content-Type'', ''application/json'')]\<rparr>"

text \<open>
  The rate-limit middleware: key, check, then the handler or a 429, all inside one
  \<open>try\<close>; the \<open>catch\<close> runs the handler. The key generator is an option of the
  caller and may raise. (The reset header carries the instant in milliseconds rather
  than as ISO text.)
\<close>

definition rateLimitMiddleware ::
  "govEnv \<Rightarrow> (request \<Rightarrow> error + string) \<Rightarrow> int \<Rightarrow> instant \<Rightarrow> request \<Rightarrow> handler
     \<Rightarrow> world \<Rightarrow> response outcome" where
  "rateLimitMiddleware gv keyGenerator maxRequests now req handler w =
     (case keyGenerator req of
        Inl e \<Rightarrow> handler w
      | Inr identifier \<Rightarrow>
          (case checkRateLimit gv now identifier (pathname req) (reqMethod req)
                  maxRequests w of
             (res, w1) \<Rightarrow>
               if allowed res then
                 (case handler w1 of
                    (Inl e, w2) \<Rightarrow> handler w2
                  | (Inr r, w2) \<Rightarrow> (Inr (rateLimitHeaders res r), w2))
               else (Inr (rateLimitHeaders res tooManyRequests), w1)))"

definition tokenLimitExceeded :: response where
  "tokenLimitExceeded =
     \<lparr>statusCode = 429, body = ''Token Limit Exceeded'',
      headers = [(''Content-Type'', ''application/json'')]\<rparr>"

definition tokenLimitMiddleware ::
  "govEnv \<Rightarrow> instant \<Rightarrow> request \<Rightarrow> handler \<Rightarrow> string \<Rightarrow> int \<Rightarrow> world
     \<Rightarrow> response outcome" where
  "tokenLimitMiddleware gv now req handler uid estimatedTokens w =
     (case trackTokenUsage gv now uid estimatedTokens w of
        (ok, w1) \<Rightarrow>
          if \<not> ok then (Inr tokenLimitExceeded, w1)
          else (case handler w1 of
                  (Inl e, w2) \<Rightarrow> handler w2
                | (Inr r, w2) \<Rightarrow> (Inr r, w2)))"

record maintenanceStatus =
  isMaintenanceMode :: bool
  emergencyAccess :: bool
  statusMessage :: "string option"

definition defaultMaintenanceMessage :: string where
  "defaultMaintenanceMessage =
     [CHR 0xE3, CHR 0x82, CHR 0xB7, CHR 0xE3, CHR 0x82, CHR 0xB9, CHR 0xE3, CHR 0x83,
      CHR 0x86, CHR 0xE3, CHR 0x83, CHR 0xA0, CHR 0xE3, CHR 0x83, CHR 0xA1, CHR 0xE3,
      CHR 0x83, CHR 0xB3, CHR 0xE3, CHR 0x83, CHR 0x86, CHR 0xE3, CHR 0x83, CHR 0x8A,
      CHR 0xE3, CHR 0x83, CHR 0xB3, CHR 0xE3, CHR 0x82, CHR 0xB9, CHR 0xE4, CHR 0xB8,
      CHR 0xAD, CHR 0xE3, CHR 0x81, CHR 0xA7, CHR 0xE3, CHR 0x81, CHR 0x99, CHR 0xE3,
      CHR 0x80, CHR 0x82, CHR 0xE3, CHR 0x81, CHR 0x97, CHR 0xE3, CHR 0x81, CHR 0xB0,
      CHR 0xE3, CHR 0x82, CHR 0x89, CHR 0xE3, CHR 0x81, CHR 0x8F, CHR 0xE3, CHR 0x81,
      CHR 0x8A, CHR 0xE5, CHR 0xBE, CHR 0x85, CHR 0xE3, CHR 0x81, CHR 0xA1, CHR 0xE3,
      CHR 0x81, CHR 0x8F, CHR 0xE3, CHR 0x81, CHR 0xA0, CHR 0xE3, CHR 0x81, CHR 0x95,
      CHR 0xE3, CHR 0x81, CHR 0x84, CHR 0xE3, CHR 0x80, CHR 0x82]"

text \<open>
  \<open>checkMaintenanceMode\<close>: the four settings are read into a map (a later row
  overwrites an earlier one with the same key); a raised lookup gives the
  not-in-maintenance answer.
\<close>

definition maintenanceKeys :: "string list" where
  "maintenanceKeys =
     [''maintenance_mode'', ''maintenance_message'', ''emergency_access'',
      ''scheduled_maintenance'']"

definition settingsMap :: "world \<Rightarrow> string \<Rightarrow> string option" where
  "settingsMap w =
     map_of (rev (filter (\<lambda>kv. fst kv \<in> set maintenanceKeys) (systemSettings w)))"

definition inScheduledWindow :: "govEnv \<Rightarrow> instant \<Rightarrow> string \<Rightarrow> bool" where
  "inScheduledWindow gv now v =
     (case parseScheduled gv v of
        None \<Rightarrow> False
      | Some (Some a, Some b) \<Rightarrow> a \<le> now \<and> now \<le> b
      | Some _ \<Rightarrow> False)"

definition checkMaintenanceMode :: "govEnv \<Rightarrow> instant \<Rightarrow> world \<Rightarrow> maintenanceStatus" where
  "checkMaintenanceMode gv now w =
     (case settingsFindMany gv of
        Some e \<Rightarrow>
          \<lparr>isMaintenanceMode = False, emergencyAccess = False, statusMessage = None\<rparr>
      | None \<Rightarrow>
          (let m = settingsMap w;
               flag = (m ''maintenance_mode'' = Some ''true'');
               mm = (if \<not> flag then
                       (case m ''scheduled_maintenance'' of
                          None \<Rightarrow> flag
                        | Some v \<Rightarrow> if v \<noteq> [] then inScheduledWindow gv now v else flag)
                     else flag)
           in \<lparr>isMaintenanceMode = mm,
               emergencyAccess = (m ''emergency_access'' = Some ''true''),
               statusMessage =
                 Some (case m ''maintenance_message'' of
                         None \<Rightarrow> defaultMaintenanceMessage
                       | Some v \<Rightarrow> if v \<noteq> [] then v else defaultMaintenanceMessage)\<rparr>))"

fun urlIncludes :: "string \<Rightarrow> string \<Rightarrow> bool" where
  "urlIncludes [] p = (p = [])"
| "urlIncludes (c # cs) p = (take (length p) (c # cs) = p \<or> urlIncludes cs p)"

definition serviceUnavailable :: "string \<Rightarrow> response" where
  "serviceUnavailable msg =
     \<lparr>statusCode = 503, body = msg,
      headers = [(''Content-Type'', ''application/json''), (''Retry-After'', ''3600'')]\<rparr>"

definition isAdminApi :: "request \<Rightarrow> bool" where
  "isAdminApi req =
     (urlIncludes (url req) ''/api/admin/settings'' \<or>
      urlIncludes (url req) ''/api/admin/notifications'' \<or>
      urlIncludes (url req) ''/api/admin/maintenance'')"

definition maintenanceMiddleware ::
  "govEnv \<Rightarrow> instant \<Rightarrow> request \<Rightarrow> handler \<Rightarrow> world \<Rightarrow> response outcome" where
  "maintenanceMiddleware gv now req handler w =
     (let st = checkMaintenanceMode gv now w;
          run = (case handler w of
                   (Inl e, w2) \<Rightarrow> handler w2
                 | (Inr r, w2) \<Rightarrow> (Inr r, w2))
      in if isMaintenanceMode st then
           (if \<not> (isAdminApi req \<or> emergencyAccess st)
            then (Inr (serviceUnavailable
                         (case statusMessage st of
                            None \<Rightarrow> ''The system is currently under maintenance. Please try again later.''
                          | Some v \<Rightarrow>
                              if v \<noteq> [] then v
                              else ''The system is currently under maintenance. Please try again later.'')),
                  w)
            else run)
         else run)"

text \<open>A caller issuing one check after another for the same key, at the given instants.\<close>

fun checkAll ::
  "govEnv \<Rightarrow> string \<Rightarrow> string \<Rightarrow> string \<Rightarrow> int \<Rightarrow> instant list \<Rightarrow> world
     \<Rightarrow> RateLimitResult list \<times> world" where
  "checkAll gv identifier endpoint method limitPerHour [] w = ([], w)"
| "checkAll gv identifier endpoint method limitPerHour (t # ts) w =
     (case checkRateLimit gv t identifier endpoint method limitPerHour w of
        (r, w1) \<Rightarrow>
          (case checkAll gv identifier endpoint method limitPerHour ts w1 of
             (rs, w2) \<Rightarrow> (r # rs, w2)))"

section \<open>Sweeps that overlap\<close>

text \<open>
  \<open>executeSchedules\<close> is asynchronous: between two of its awaited calls another
  invocation may run up to its own next await. One invocation is therefore a machine
  that moves in steps, each step atomic: the entry (the test of the run flag and its
  setting, with no await in between), the due query, one schedule of the loop, and the
  return through \<open>finally\<close>. A system is the shared world with any number of
  invocations; an event lets one of them take its next step at some instant.
\<close>

datatype sweep =
    Called
  | Fetching
  | Processing "schedule list" "ScheduleExecutionResult list"
  | Returned "error + ScheduleExecutionResult list"

fun sweepStep :: "env \<Rightarrow> instant \<Rightarrow> sweep \<Rightarrow> world \<Rightarrow> sweep \<times> world" where
  "sweepStep ev now Called w =
     (if isRunning w then (Returned (Inr []), w)
      else (Fetching, w\<lparr>isRunning := True\<rparr>))"
| "sweepStep ev now Fetching w =
     (case getDueSchedules ev now w of
        Inl e \<Rightarrow> (Returned (Inl e), w\<lparr>isRunning := False\<rparr>)
      | Inr due \<Rightarrow> (Processing due [], w))"
| "sweepStep ev now (Processing [] rs) w = (Returned (Inr rs), w\<lparr>isRunning := False\<rparr>)"
| "sweepStep ev now (Processing (s # ss) rs) w =
     (case processSchedule ev now s (rs, w) of (rs', w') \<Rightarrow> (Processing ss rs', w'))"
| "sweepStep ev now (Returned r) w = (Returned r, w)"

fun sweeping :: "sweep \<Rightarrow> bool" where
  "sweeping Fetching = True"
| "sweeping (Processing ss rs) = True"
| "sweeping Called = False"
| "sweeping (Returned r) = False"

type_synonym system = "sweep list \<times> world"

type_synonym event = "nat \<times> instant \<times> env"

definition systemStep :: "event \<Rightarrow> system \<Rightarrow> system" where
  "systemStep e sys =
     (case e of (i, now, ev) \<Rightarrow>
        (case sys of (ts, w) \<Rightarrow>
           if i < length ts
           then (case sweepStep ev now (ts ! i) w of (t', w') \<Rightarrow> (ts[i := t'], w'))
           else sys))"

definition runEvents :: "event list \<Rightarrow> system \<Rightarrow> system" where
  "runEvents evs sys = foldl (\<lambda>s e. systemStep e s) sys evs"

section \<open>Concrete inputs\<close>

text \<open>
  A store with one daily schedule that has been due since the day before, an
  environment in which nothing raises, and variants of both.
\<close>

definition t0 :: instant where
  "t0 = 1700040000000"

definition morning :: schedule where
  "morning =
     \<lparr>scheduleId = ''s1'', userId = ''u1'', name = ''morning'', time = 1699866000000,
      frequency = ''daily'', isActive = True, lastRun = None,
      nextRun = Some 1699952400000, runCount = 0\<rparr>"

definition world0 :: world where
  "world0 =
     \<lparr>schedules = [morning], posts = [], adminLogs = [], aIGenerations = [],
      notifications = [], systemSettings = [], generateCalls = [], isRunning = False,
      usageCache = []\<rparr>"

definition calmCap :: capEnv where
  "calmCap =
     \<lparr>postCreate = None, postUpdate = None, logCreate = None,
      rndViews = 1 / 2, rndEngagements = 1 / 2\<rparr>"

definition calmSched :: schedEnv where
  "calmSched =
     \<lparr>rndChoice = 0, generateContent = Inr ''hello'', rndTokens = 0,
      generationCreate = None, primary = calmCap, fallback = calmCap,
      errorLogCreate = None, scheduleUpdate = None\<rparr>"

definition calmEnv :: env where
  "calmEnv =
     \<lparr>hostZone = fixedZone 32400000, threadsAccessToken = None, defaultViews = 0,
      defaultEngagements = 0, scheduleFindMany = None, perSchedule = (\<lambda>i. calmSched)\<rparr>"

text \<open>The store refuses to create the post row.\<close>

definition noPostEnv :: env where
  "noPostEnv =
     calmEnv\<lparr>perSchedule :=
       (\<lambda>i. calmSched\<lparr>primary := calmCap\<lparr>postCreate := Some ''store unavailable''\<rparr>\<rparr>)\<rparr>"

text \<open>The store refuses the write-back of the remote identifier.\<close>

definition noUpdateEnv :: env where
  "noUpdateEnv =
     calmEnv\<lparr>perSchedule :=
       (\<lambda>i. calmSched\<lparr>primary := calmCap\<lparr>postUpdate := Some ''store unavailable''\<rparr>\<rparr>)\<rparr>"

text \<open>
  The store refuses that write-back and the write of the error log as well; and a store
  that refuses the update of the schedule row.
\<close>

definition noErrorLogEnv :: env where
  "noErrorLogEnv =
     calmEnv\<lparr>perSchedule :=
       (\<lambda>i. calmSched\<lparr>primary := calmCap\<lparr>postUpdate := Some ''store unavailable''\<rparr>,
                        errorLogCreate := Some ''log unavailable''\<rparr>)\<rparr>"

definition noScheduleUpdateEnv :: env where
  "noScheduleUpdateEnv =
     calmEnv\<lparr>perSchedule := (\<lambda>i. calmSched\<lparr>scheduleUpdate := Some ''store unavailable''\<rparr>)\<rparr>"

definition resultsOf :: "ScheduleExecutionResult list outcome \<Rightarrow> ScheduleExecutionResult list" where
  "resultsOf out = (case fst out of Inr rs \<Rightarrow> rs | Inl e \<Rightarrow> [])"

definition dueIds :: "env \<Rightarrow> instant \<Rightarrow> world \<Rightarrow> string list" where
  "dueIds ev now w =
     (case getDueSchedules ev now w of Inr ss \<Rightarrow> map scheduleId ss | Inl e \<Rightarrow> [])"

text \<open>A one-shot schedule that is due, alone in the store.\<close>

definition launch :: schedule where
  "launch =
     \<lparr>scheduleId = ''s2'', userId = ''u1'', name = ''launch'', time = 1700038800000,
      frequency = ''once'', isActive = True, lastRun = None,
      nextRun = Some 1700038800000, runCount = 0\<rparr>"

definition onceWorld :: world where
  "onceWorld = world0\<lparr>schedules := [launch]\<rparr>"

text \<open>
  A governance environment in which nothing raises; a store whose rate-limit setting
  makes the limiter deny every call; and a store in maintenance mode whose one due
  schedule is an AI post.
\<close>

definition calmGov :: govEnv where
  "calmGov =
     \<lparr>govZone = fixedZone 32400000, settingsFindUnique = None, settingsFindMany = None,
      usageLogCreate = None, notificationFindFirst = None, notificationCreate = None,
      generationAggregate = None, parseScheduled = (\<lambda>v. None)\<rparr>"

definition throttledWorld :: world where
  "throttledWorld = world0\<lparr>systemSettings := [(''api_rate_limit'', ''-1'')]\<rparr>"

definition aiSchedule :: schedule where
  "aiSchedule = morning\<lparr>scheduleId := ''s3'', name := aiPostName\<rparr>"

definition maintenanceWorld :: world where
  "maintenanceWorld =
     world0\<lparr>schedules := [aiSchedule], systemSettings := [(''maintenance_mode'', ''true'')]\<rparr>"

definition postsRequest :: request where
  "postsRequest =
     \<lparr>url = ''http://localhost:3000/api/admin/posts'', pathname = ''/api/admin/posts'',
      reqMethod = ''GET''\<rparr>"

definition okHandler :: handler where
  "okHandler w = (Inr \<lparr>statusCode = 200, body = ''ok'', headers = []\<rparr>, w)"

text \<open>A store whose settings allow three calls an hour, and one with a budget of 100 tokens a day.\<close>

definition limitedWorld :: world where
  "limitedWorld = world0\<lparr>systemSettings := [(''api_rate_limit'', ''3'')]\<rparr>"

definition budgetWorld :: world where
  "budgetWorld = world0\<lparr>systemSettings := [(''max_tokens_per_day'', ''100'')]\<rparr>"

text \<open>
  The same budget with 70 tokens already spent today by user \<open>u1\<close>; a store in which
  the key of \<open>client\<close> has used up its three calls; and governance environments in
  which the ledger write, or every lookup, raises.
\<close>

definition spentWorld :: world where
  "spentWorld =
     budgetWorld\<lparr>aIGenerations :=
       [\<lparr>genUserId = ''u1'', prompt = 0, generatedContent = ''hello'',
         model = ''gemini-1.5-flash'', tokensUsed = 70, genCreatedAt = t0\<rparr>]\<rparr>"

text \<open>
  A budget of \<open>2^53\<close> tokens, the largest integer up to which every integer is a
  Number, with one token spent today.
\<close>

definition hugeBudgetWorld :: world where
  "hugeBudgetWorld =
     world0\<lparr>systemSettings := [(''max_tokens_per_day'', ''9007199254740992'')],
             aIGenerations :=
               [\<lparr>genUserId = ''u1'', prompt = 0, generatedContent = ''hello'',
                 model = ''gemini-1.5-flash'', tokensUsed = 1, genCreatedAt = t0\<rparr>]\<rparr>"

definition usedUpWorld :: world where
  "usedUpWorld =
     limitedWorld\<lparr>usageCache :=
       [(''client:/api/admin/posts:GET'', \<lparr>count = 3, reset = t0 + 1000000\<rparr>)]\<rparr>"

definition noLedgerGov :: govEnv where
  "noLedgerGov = calmGov\<lparr>usageLogCreate := Some ''store unavailable''\<rparr>"

definition downGov :: govEnv where
  "downGov =
     calmGov\<lparr>settingsFindUnique := Some ''store unavailable'',
             settingsFindMany := Some ''store unavailable''\<rparr>"

definition clientKey :: "request \<Rightarrow> error + string" where
  "clientKey req = Inr ''client''"

definition brokenKey :: "request \<Rightarrow> error + string" where
  "brokenKey req = Inl ''no key''"

definition responseStatus :: "response outcome \<Rightarrow> nat option" where
  "responseStatus out = (case fst out of Inr r \<Rightarrow> Some (statusCode r) | Inl e \<Rightarrow> None)"

section \<open>Frame properties and the sweep invariant\<close>

subsection \<open>What the pipeline leaves alone\<close>

definition sameControl :: "world \<Rightarrow> world \<Rightarrow> bool" where
  "sameControl w w' =
     (schedules w' = schedules w \<and> isRunning w' = isRunning w \<and>
      systemSettings w' = systemSettings w \<and> usageCache w' = usageCache w \<and>
      notifications w' = notifications w)"

lemma sameControl_refl: "sameControl w w"
  by (simp add: sameControl_def)

lemma sameControl_trans: "sameControl a b \<Longrightarrow> sameControl b c \<Longrightarrow> sameControl a c"
  by (simp add: sameControl_def)

lemma createAndPostContent_control:
  "sameControl w (snd (createAndPostContent ev ce now s c ty w))"
  by (simp add: createAndPostContent_def sameControl_def Let_def split: option.splits)

lemma executeAIPost_control: "sameControl w (snd (executeAIPost ev se now s w))"
proof -
  let ?w1 = "w\<lparr>generateCalls := generateCalls w @ [nat (randomBelow (rndChoice se) 5)]\<rparr>"
  have 1: "sameControl w ?w1" by (simp add: sameControl_def)
  have fb: "sameControl w (snd (createAndPostContent ev (fallback se) now s FallbackText ''fallback_post'' w'))"
    if "sameControl w w'" for w'
    using that createAndPostContent_control[of w' ev "fallback se" now s FallbackText "''fallback_post''"]
    by (rule sameControl_trans)
  show ?thesis
  proof (cases "generateContent se")
    case (Inl e)
    then show ?thesis using fb[OF 1] by (simp add: executeAIPost_def Let_def)
  next
    case (Inr gen)
    show ?thesis
    proof (cases "generationCreate se")
      case (Some e)
      then show ?thesis using Inr fb[OF 1] by (simp add: executeAIPost_def Let_def)
    next
      case None
      let ?w2 = "?w1\<lparr>aIGenerations := aIGenerations ?w1 @
                   [\<lparr>genUserId = userId s, prompt = nat (randomBelow (rndChoice se) 5),
                     generatedContent = gen, model = ''gemini-1.5-flash'',
                     tokensUsed = randomBelow (rndTokens se) 500 + 100,
                     genCreatedAt = now\<rparr>]\<rparr>"
      have 2: "sameControl w ?w2" by (simp add: sameControl_def)
      obtain out w3 where c: "createAndPostContent ev (primary se) now s (Generated gen) ''ai_post'' ?w2 = (out, w3)"
        by (cases "createAndPostContent ev (primary se) now s (Generated gen) ''ai_post'' ?w2")
      have 3: "sameControl w w3"
        using createAndPostContent_control[of ?w2 ev "primary se" now s "Generated gen" "''ai_post''"] 2 c
        by (auto intro: sameControl_trans)
      show ?thesis
      proof (cases out)
        case (Inl e)
        then show ?thesis using Inr None c fb[OF 3] by (simp add: executeAIPost_def Let_def)
      next
        case (Inr r)
        then show ?thesis using \<open>generateContent se = Inr gen\<close> None c 3
          by (simp add: executeAIPost_def Let_def)
      qed
    qed
  qed
qed

lemma dispatch_control:
  "sameControl w (snd (if name s = greetingName then executeGreetingPost ev se now s w
                       else if name s = aiPostName then executeAIPost ev se now s w
                       else executeGenericPost ev se now s w))"
  by (simp add: executeGreetingPost_def executeGenericPost_def createAndPostContent_control
        executeAIPost_control)

lemma executeSchedule_control: "sameControl w (snd (executeSchedule ev now s w))"
proof -
  let ?se = "perSchedule ev (scheduleId s)"
  let ?d = "if name s = greetingName then executeGreetingPost ev ?se now s w
            else if name s = aiPostName then executeAIPost ev ?se now s w
            else executeGenericPost ev ?se now s w"
  obtain out w1 where d: "?d = (out, w1)" by (cases ?d)
  have 1: "sameControl w w1" using dispatch_control[of w s ev ?se now] d by simp
  then have 2: "sameControl w (w1\<lparr>adminLogs := x\<rparr>)" for x by (simp add: sameControl_def)
  show ?thesis
    unfolding executeSchedule_def Let_def d
    using 1 2 by (simp split: sum.splits option.splits)
qed

lemma updateSchedule_isRunning:
  "isRunning (snd (updateScheduleAfterExecution ev now s ok w)) = isRunning w"
  by (simp add: updateScheduleAfterExecution_def split: option.splits)

lemma processSchedule_isRunning:
  "isRunning (snd (processSchedule ev now s (rs, w))) = isRunning w"
proof -
  obtain out w1 where e: "executeSchedule ev now s w = (out, w1)"
    by (cases "executeSchedule ev now s w")
  have 1: "isRunning w1 = isRunning w"
    using executeSchedule_control[of w ev now s] e by (simp add: sameControl_def)
  show ?thesis
  proof (cases out)
    case (Inl x)
    then show ?thesis using e 1 by (simp add: processSchedule_def)
  next
    case (Inr r)
    obtain o2 w2 where u: "updateScheduleAfterExecution ev now s (success r) w1 = (o2, w2)"
      by (cases "updateScheduleAfterExecution ev now s (success r) w1")
    have "isRunning w2 = isRunning w1"
      using updateSchedule_isRunning[of ev now s "success r" w1] u by simp
    then show ?thesis using Inr e u 1 by (simp add: processSchedule_def split: sum.splits)
  qed
qed

subsection \<open>At most one sweep at a time\<close>

lemma filter_update_count:
  "i < length ts \<Longrightarrow>
   length (filter P (ts[i := x])) + (if P (ts ! i) then 1 else 0)
     = length (filter P ts) + (if P x then 1 else 0)"
proof (induction ts arbitrary: i)
  case Nil
  then show ?case by simp
next
  case (Cons t ts)
  show ?case
  proof (cases i)
    case 0
    then show ?thesis by simp
  next
    case (Suc j)
    then have "j < length ts" using Cons.prems by simp
    from Cons.IH[OF this] show ?thesis using Suc by simp
  qed
qed

definition oneSweep :: "system \<Rightarrow> bool" where
  "oneSweep sys =
     (case sys of (ts, w) \<Rightarrow> length (filter sweeping ts) = (if isRunning w then 1 else 0))"

lemma getDueSchedules_pure: "getDueSchedules ev now (w\<lparr>isRunning := b\<rparr>) = getDueSchedules ev now w"
  by (simp add: getDueSchedules_def split: option.splits)

lemma sweepStep_flag:
  assumes "sweepStep ev now t w = (t', w')"
  shows "(sweeping t \<longrightarrow> isRunning w' = (sweeping t' \<and> isRunning w)) \<and>
         (\<not> sweeping t \<longrightarrow> (sweeping t' \<longleftrightarrow> \<not> isRunning w \<and> t = Called) \<and>
                               isRunning w' = (isRunning w \<or> sweeping t'))"
proof (cases t)
  case Called
  then show ?thesis using assms by (auto split: if_splits)
next
  case Fetching
  then show ?thesis using assms by (auto split: sum.splits)
next
  case (Processing ss rs)
  show ?thesis
  proof (cases ss)
    case Nil
    then show ?thesis using assms Processing by auto
  next
    case (Cons s ss')
    obtain rs' w2 where p: "processSchedule ev now s (rs, w) = (rs', w2)"
      by (cases "processSchedule ev now s (rs, w)")
    have "isRunning w2 = isRunning w"
      using processSchedule_isRunning[of ev now s rs w] p by simp
    then show ?thesis using assms Processing Cons p by auto
  qed
next
  case (Returned r)
  then show ?thesis using assms by auto
qed

lemma systemStep_oneSweep:
  assumes "oneSweep sys"
  shows "oneSweep (systemStep e sys)"
proof -
  obtain i now ev where e: "e = (i, now, ev)" by (cases e)
  obtain ts w where sys: "sys = (ts, w)" by (cases sys)
  show ?thesis
  proof (cases "i < length ts")
    case False
    then show ?thesis using assms by (simp add: systemStep_def e sys)
  next
    case True
    obtain t' w' where st: "sweepStep ev now (ts ! i) w = (t', w')"
      by (cases "sweepStep ev now (ts ! i) w")
    note f = sweepStep_flag[OF st]
    note c = filter_update_count[OF True, of sweeping t']
    have inv: "length (filter sweeping ts) = (if isRunning w then 1 else 0)"
      using assms by (simp add: oneSweep_def sys)
    have "length (filter sweeping (ts[i := t'])) = (if isRunning w' then 1 else 0)"
    proof (cases "sweeping (ts ! i)")
      case True
      then have "isRunning w"
        using inv \<open>i < length ts\<close>
        by (metis (full_types) filter_empty_conv length_0_conv nth_mem)
      then show ?thesis using f c inv True by (auto split: if_splits)
    next
      case False
      then show ?thesis using f c inv by (auto split: if_splits)
    qed
    then show ?thesis using True st by (simp add: systemStep_def e sys oneSweep_def)
  qed
qed

lemma runEvents_oneSweep: "oneSweep sys \<Longrightarrow> oneSweep (runEvents evs sys)"
  unfolding runEvents_def
  by (induction evs arbitrary: sys) (simp_all add: systemStep_oneSweep)

lemma oneSweep_initial: "\<not> isRunning w \<Longrightarrow> oneSweep (replicate n Called, w)"
  by (simp add: oneSweep_def)

lemma executeSchedules_skips: "isRunning w \<Longrightarrow> executeSchedules ev now w = (Inr [], w)"
  by (simp add: executeSchedules_def)

lemma executeSchedules_clears: "\<not> isRunning w \<Longrightarrow> \<not> isRunning (snd (executeSchedules ev now w))"
  by (simp add: executeSchedules_def Let_def split: sum.splits prod.splits)

lemmas pipeline_defs =
  executeSchedules_def getDueSchedules_def processSchedule_def executeSchedule_def
  executeGenericPost_def executeGreetingPost_def executeAIPost_def createAndPostContent_def
  updateScheduleAfterExecution_def updateData_def isDue_def dueKey_def failedResult_def
  updatePost_def randomBelow_def greetingName_def aiPostName_def resultsOf_def dueIds_def Let_def

lemmas input_defs =
  t0_def morning_def world0_def calmCap_def calmSched_def calmEnv_def noPostEnv_def
  noUpdateEnv_def noErrorLogEnv_def noScheduleUpdateEnv_def

subsection \<open>Results of the pipeline\<close>

lemma createAndPostContent_result:
  assumes "createAndPostContent ev ce now s c ty w = (Inr r, w')"
  shows "resScheduleId r = scheduleId s \<and> success r"
  using assms
  by (auto simp: createAndPostContent_def Let_def split: option.splits)

lemma executeAIPost_result:
  assumes "executeAIPost ev se now s w = (Inr r, w')"
  shows "resScheduleId r = scheduleId s \<and> success r"
  using assms
  by (auto simp: executeAIPost_def Let_def split: sum.splits option.splits prod.splits
      dest: createAndPostContent_result)

lemma dispatch_result:
  assumes "(if name s = greetingName then executeGreetingPost ev se now s w
            else if name s = aiPostName then executeAIPost ev se now s w
            else executeGenericPost ev se now s w) = (Inr r, w')"
  shows "resScheduleId r = scheduleId s \<and> success r"
  using assms
  by (auto simp: executeGreetingPost_def executeGenericPost_def split: if_splits
      dest: createAndPostContent_result executeAIPost_result)

lemma executeSchedule_result:
  assumes "executeSchedule ev now s w = (Inr r, w')"
  shows "resScheduleId r = scheduleId s \<and>
         (\<not> success r \<longrightarrow> message r = ''Execution failed'' \<and> (\<exists>e. resError r = Some e) \<and>
                              resPostId r = None \<and> resThreadsPostId r = None)"
proof -
  let ?se = "perSchedule ev (scheduleId s)"
  let ?d = "if name s = greetingName then executeGreetingPost ev ?se now s w
            else if name s = aiPostName then executeAIPost ev ?se now s w
            else executeGenericPost ev ?se now s w"
  obtain out w1 where d: "?d = (out, w1)" by (cases ?d)
  show ?thesis
  proof (cases out)
    case (Inr r')
    then have "r' = r" using assms d by (simp add: executeSchedule_def Let_def)
    then show ?thesis using dispatch_result[of s ev ?se now w r w1] d Inr by simp
  next
    case (Inl e)
    then have "r = failedResult s e"
      using assms d by (simp add: executeSchedule_def Let_def split: option.splits)
    then show ?thesis by (simp add: failedResult_def)
  qed
qed

lemma executeSchedule_raises:
  assumes "executeSchedule ev now s w = (Inl e, w')"
  shows "errorLogCreate (perSchedule ev (scheduleId s)) = Some e"
proof -
  let ?se = "perSchedule ev (scheduleId s)"
  let ?d = "if name s = greetingName then executeGreetingPost ev ?se now s w
            else if name s = aiPostName then executeAIPost ev ?se now s w
            else executeGenericPost ev ?se now s w"
  obtain out w1 where d: "?d = (out, w1)" by (cases ?d)
  show ?thesis
    using assms d by (cases out) (simp_all add: executeSchedule_def Let_def split: option.splits)
qed

subsection \<open>The schedule table after the update\<close>

definition findSchedule :: "string \<Rightarrow> world \<Rightarrow> schedule option" where
  "findSchedule i w = find (\<lambda>row. scheduleId row = i) (schedules w)"

lemma updateData_scheduleId: "scheduleId (updateData ev now s ok row) = scheduleId row"
  by (simp add: updateData_def Let_def)

lemma find_distinct:
  "s \<in> set rows \<Longrightarrow> distinct (map scheduleId rows) \<Longrightarrow>
   find (\<lambda>row. scheduleId row = scheduleId s) rows = Some s"
  by (induction rows) auto

lemma find_map_update:
  assumes "\<And>row. scheduleId (f row) = scheduleId row"
  shows "find (\<lambda>row. scheduleId row = i)
           (map (\<lambda>row. if scheduleId row = i then f row else row) rows)
         = map_option f (find (\<lambda>row. scheduleId row = i) rows)"
  using assms by (induction rows) auto

lemma updateSchedule_ok:
  assumes "scheduleUpdate (perSchedule ev (scheduleId s)) = None"
      and "s \<in> set (schedules w)"
  shows "updateScheduleAfterExecution ev now s ok w =
           (Inr (),
            w\<lparr>schedules := map (\<lambda>row. if scheduleId row = scheduleId s
                                      then updateData ev now s ok row else row)
                                (schedules w)\<rparr>)"
  using assms by (auto simp: updateScheduleAfterExecution_def)

lemma processSchedule_ok:
  assumes "errorLogCreate (perSchedule ev (scheduleId s)) = None"
      and "scheduleUpdate (perSchedule ev (scheduleId s)) = None"
      and "s \<in> set (schedules w)"
  shows "\<exists>r w1. executeSchedule ev now s w = (Inr r, w1) \<and>
           processSchedule ev now s (rs, w) =
             (rs @ [r],
              w1\<lparr>schedules := map (\<lambda>row. if scheduleId row = scheduleId s
                                         then updateData ev now s (success r) row else row)
                                   (schedules w)\<rparr>)"
proof -
  obtain out w1 where e: "executeSchedule ev now s w = (out, w1)"
    by (cases "executeSchedule ev now s w")
  have c: "schedules w1 = schedules w"
    using executeSchedule_control[of w ev now s] e by (simp add: sameControl_def)
  show ?thesis
  proof (cases out)
    case (Inl x)
    then show ?thesis using e executeSchedule_raises[of ev now s w x w1] assms(1) by simp
  next
    case (Inr r)
    have "s \<in> set (schedules w1)" using assms(3) c by simp
    from updateSchedule_ok[OF assms(2) this, of now "success r"]
    show ?thesis using e Inr c by (simp add: processSchedule_def)
  qed
qed

lemma bookkeeping_row:
  assumes "errorLogCreate (perSchedule ev (scheduleId s)) = None"
      and "scheduleUpdate (perSchedule ev (scheduleId s)) = None"
      and "s \<in> set (schedules w)"
      and "distinct (map scheduleId (schedules w))"
  shows "\<exists>r. fst (executeSchedule ev now s w) = Inr r \<and>
             fst (processSchedule ev now s (rs, w)) = rs @ [r] \<and>
             findSchedule (scheduleId s) (snd (processSchedule ev now s (rs, w)))
               = Some (updateData ev now s (success r) s)"
proof -
  from processSchedule_ok[OF assms(1-3), of now rs]
  obtain r w1 where e: "executeSchedule ev now s w = (Inr r, w1)"
    and p: "processSchedule ev now s (rs, w) =
             (rs @ [r],
              w1\<lparr>schedules := map (\<lambda>row. if scheduleId row = scheduleId s
                                         then updateData ev now s (success r) row else row)
                                   (schedules w)\<rparr>)"
    by blast
  have "findSchedule (scheduleId s) (snd (processSchedule ev now s (rs, w)))
          = map_option (updateData ev now s (success r))
              (find (\<lambda>row. scheduleId row = scheduleId s) (schedules w))"
    unfolding p findSchedule_def
    using find_map_update[of "updateData ev now s (success r)" "scheduleId s" "schedules w"]
    by (simp add: updateData_scheduleId)
  also have "\<dots> = Some (updateData ev now s (success r) s)"
    using find_distinct[OF assms(3,4)] by simp
  finally show ?thesis using e p by simp
qed


section \<open>Claim C1: the bookkeeping after an execution\<close>

lemma calculateNextRun_future:
  assumes "f = ''daily'' \<or> f = ''weekly'' \<or> f = ''monthly''"
  shows "now < calculateNextRun z now base f"
  using calculateNextRun_first[OF assms, of z now base] by blast

text \<open>
  As stated, claim C1 fails: when the pipeline of a daily schedule fails (here the store
  refuses to create the post row), the update leaves \<open>nextRun\<close> where it was, since
  \<open>updateScheduleAfterExecution\<close> recomputes it only under \<open>success\<close>. After the
  sweep the schedule has been counted and stamped, and is still due at the same instant.
\<close>

theorem failed_run_stays_due:
  "map success (resultsOf (executeSchedules noPostEnv t0 world0)) = [False] \<and>
   map frequency (schedules (snd (executeSchedules noPostEnv t0 world0))) = [''daily''] \<and>
   map runCount (schedules (snd (executeSchedules noPostEnv t0 world0))) = [1] \<and>
   map lastRun (schedules (snd (executeSchedules noPostEnv t0 world0))) = [Some t0] \<and>
   map nextRun (schedules (snd (executeSchedules noPostEnv t0 world0))) = [Some 1699952400000] \<and>
   \<not> t0 < 1699952400000 \<and>
   dueIds noPostEnv t0 (snd (executeSchedules noPostEnv t0 world0)) = [''s1'']"
proof -
  have e: "executeSchedules noPostEnv t0 world0 =
    (Inr [failedResult morning ''store unavailable''],
     world0\<lparr>schedules := [morning\<lparr>lastRun := Some t0, runCount := 1\<rparr>],
            adminLogs := [\<lparr>action = ''schedule_execution_failed'',
               details = ''Schedule execution failed: morning - store unavailable''\<rparr>]\<rparr>)"
    by (simp add: pipeline_defs input_defs)
  show ?thesis
    unfolding e
    by (simp add: resultsOf_def failedResult_def dueIds_def getDueSchedules_def isDue_def
          input_defs)
qed

text \<open>
  Claim C1, amended. Whenever \<open>executeSchedule\<close> returns a result for a schedule read
  from the store (that is, unless the write of its error log raises) and the schedule
  update itself does not raise, the loop body pushes exactly one result and the
  bookkeeping has run once: \<open>lastRun\<close> is the execution instant and \<open>runCount\<close> is one
  more, whether the result is a success or a failure. After a success of a daily, weekly
  or monthly schedule \<open>nextRun\<close> is an instant strictly after \<open>now\<close>, so the schedule
  is no longer due at that instant; after a failure of a schedule that is not \<open>once\<close>,
  \<open>nextRun\<close> and \<open>isActive\<close> are left as they were.
\<close>

theorem bookkeeping_after_execution:
  assumes "s \<in> set (schedules w)"
      and "distinct (map scheduleId (schedules w))"
      and "errorLogCreate (perSchedule ev (scheduleId s)) = None"
      and "scheduleUpdate (perSchedule ev (scheduleId s)) = None"
  shows "\<exists>r row.
           fst (processSchedule ev now s (rs, w)) = rs @ [r] \<and>
           resScheduleId r = scheduleId s \<and>
           findSchedule (scheduleId s) (snd (processSchedule ev now s (rs, w))) = Some row \<and>
           lastRun row = Some now \<and> runCount row = runCount s + 1 \<and>
           (success r \<and> frequency s \<in> {''daily'', ''weekly'', ''monthly''} \<longrightarrow>
              (\<exists>t. nextRun row = Some t \<and> now < t) \<and> \<not> isDue now row) \<and>
           (\<not> success r \<and> frequency s \<noteq> ''once'' \<longrightarrow>
              nextRun row = nextRun s \<and> isActive row = isActive s)"
proof -
  from bookkeeping_row[OF assms(3,4,1,2), of now rs]
  obtain r where e: "fst (executeSchedule ev now s w) = Inr r"
    and p: "fst (processSchedule ev now s (rs, w)) = rs @ [r]"
    and f: "findSchedule (scheduleId s) (snd (processSchedule ev now s (rs, w)))
              = Some (updateData ev now s (success r) s)"
    by blast
  let ?row = "updateData ev now s (success r) s"
  obtain w1 where "executeSchedule ev now s w = (Inr r, w1)"
    using e by (cases "executeSchedule ev now s w") simp
  then have i: "resScheduleId r = scheduleId s"
    using executeSchedule_result by blast
  have 1: "lastRun ?row = Some now \<and> runCount ?row = runCount s + 1"
    by (simp add: updateData_def Let_def)
  have 2: "(\<exists>t. nextRun ?row = Some t \<and> now < t) \<and> \<not> isDue now ?row"
    if "success r" and "frequency s \<in> {''daily'', ''weekly'', ''monthly''}"
  proof -
    have d: "frequency s = ''daily'' \<or> frequency s = ''weekly'' \<or> frequency s = ''monthly''"
      using that(2) by blast
    then have o: "frequency s \<noteq> ''once''" by auto
    have n: "nextRun ?row = Some (calculateNextRun (hostZone ev) now (time s) (frequency s))"
      using that(1) o by (simp add: updateData_def Let_def)
    then show ?thesis
      using calculateNextRun_future[OF d, of now "hostZone ev" "time s"] by (simp add: isDue_def)
  qed
  have 3: "nextRun ?row = nextRun s \<and> isActive ?row = isActive s"
    if "\<not> success r" and "frequency s \<noteq> ''once''"
    using that by (simp add: updateData_def Let_def)
  show ?thesis using p i f 1 2 3 by blast
qed

theorem bookkeeping_after_execution_witness:
  "morning \<in> set (schedules world0) \<and>
   distinct (map scheduleId (schedules world0)) \<and>
   errorLogCreate (perSchedule calmEnv (scheduleId morning)) = None \<and>
   scheduleUpdate (perSchedule calmEnv (scheduleId morning)) = None \<and>
   (\<exists>r row.
      fst (processSchedule calmEnv t0 morning ([], world0)) = [] @ [r] \<and>
      resScheduleId r = scheduleId morning \<and>
      findSchedule (scheduleId morning) (snd (processSchedule calmEnv t0 morning ([], world0)))
        = Some row \<and>
      lastRun row = Some t0 \<and> runCount row = runCount morning + 1 \<and>
      (success r \<and> frequency morning \<in> {''daily'', ''weekly'', ''monthly''} \<longrightarrow>
         (\<exists>t. nextRun row = Some t \<and> t0 < t) \<and> \<not> isDue t0 row) \<and>
      (\<not> success r \<and> frequency morning \<noteq> ''once'' \<longrightarrow>
         nextRun row = nextRun morning \<and> isActive row = isActive morning)) \<and>
   map success (fst (processSchedule calmEnv t0 morning ([], world0))) = [True] \<and>
   map nextRun (schedules (snd (processSchedule calmEnv t0 morning ([], world0))))
     = [Some 1700125200000]"
proof -
  have h1: "morning \<in> set (schedules world0)" by (simp add: world0_def)
  have h2: "distinct (map scheduleId (schedules world0))" by (simp add: world0_def)
  have h3: "errorLogCreate (perSchedule calmEnv (scheduleId morning)) = None"
    by (simp add: calmEnv_def calmSched_def)
  have h4: "scheduleUpdate (perSchedule calmEnv (scheduleId morning)) = None"
    by (simp add: calmEnv_def calmSched_def)
  have c: "calculateNextRun (fixedZone 32400000) 1700040000000 1699866000000 ''daily''
             = 1700125200000"
    by (simp add: calculateNextRun_def dailyLoop_fixed)
  have v: "map success (fst (processSchedule calmEnv t0 morning ([], world0))) = [True] \<and>
     map nextRun (schedules (snd (processSchedule calmEnv t0 morning ([], world0))))
       = [Some 1700125200000]"
    by (simp add: pipeline_defs input_defs c)
  show ?thesis
    using h1 h2 h3 h4 v bookkeeping_after_execution[OF h1 h2 h3 h4, of t0 "[]"] by blast
qed

section \<open>Claim C3: the sweep is never doubly entered\<close>

text \<open>
  One invocation stepped on its own, with nothing in between, is the sequential
  \<open>executeSchedules\<close>: the machine of the previous section is a decomposition of
  the function, not a second program.
\<close>

definition stepAlone :: "env \<Rightarrow> instant \<Rightarrow> sweep \<times> world \<Rightarrow> sweep \<times> world" where
  "stepAlone ev now tw = sweepStep ev now (fst tw) (snd tw)"

lemma processing_alone:
  "(stepAlone ev now ^^ Suc (length ss)) (Processing ss rs, w) =
     (case foldl (\<lambda>acc s. processSchedule ev now s acc) (rs, w) ss of
        (rs', w') \<Rightarrow> (Returned (Inr rs'), w'\<lparr>isRunning := False\<rparr>))"
proof (induction ss arbitrary: rs w)
  case Nil
  then show ?case by (simp add: stepAlone_def)
next
  case (Cons s ss)
  obtain rs1 w1 where p: "processSchedule ev now s (rs, w) = (rs1, w1)"
    by (cases "processSchedule ev now s (rs, w)")
  have "(stepAlone ev now ^^ Suc (length (s # ss))) (Processing (s # ss) rs, w)
          = (stepAlone ev now ^^ Suc (length ss)) (stepAlone ev now (Processing (s # ss) rs, w))"
    by (simp only: length_Cons funpow_Suc_right o_apply)
  also have "stepAlone ev now (Processing (s # ss) rs, w) = (Processing ss rs1, w1)"
    by (simp add: stepAlone_def p)
  finally show ?case using Cons.IH[of rs1 w1] p by simp
qed

lemma sweep_alone:
  "\<not> isRunning w \<Longrightarrow>
   \<exists>k. (stepAlone ev now ^^ k) (Called, w) =
        (Returned (fst (executeSchedules ev now w)), snd (executeSchedules ev now w))"
proof -
  assume idle: "\<not> isRunning w"
  let ?w1 = "w\<lparr>isRunning := True\<rparr>"
  have c: "stepAlone ev now (Called, w) = (Fetching, ?w1)"
    using idle by (simp add: stepAlone_def)
  show ?thesis
  proof (cases "getDueSchedules ev now ?w1")
    case (Inl e)
    have "(stepAlone ev now ^^ 2) (Called, w) = (Returned (Inl e), ?w1\<lparr>isRunning := False\<rparr>)"
      using c Inl by (simp add: numeral_2_eq_2 stepAlone_def)
    moreover have "executeSchedules ev now w = (Inl e, ?w1\<lparr>isRunning := False\<rparr>)"
      using idle Inl by (simp add: executeSchedules_def Let_def)
    ultimately show ?thesis by (metis fst_conv snd_conv)
  next
    case (Inr due)
    obtain rs' w' where f: "foldl (\<lambda>acc s. processSchedule ev now s acc) ([], ?w1) due = (rs', w')"
      by (cases "foldl (\<lambda>acc s. processSchedule ev now s acc) ([], ?w1) due")
    have f2: "stepAlone ev now (Fetching, ?w1) = (Processing due [], ?w1)"
      using Inr by (simp add: stepAlone_def)
    have "(stepAlone ev now ^^ (Suc (length due) + 2)) (Called, w)
            = (stepAlone ev now ^^ Suc (length due)) ((stepAlone ev now ^^ 2) (Called, w))"
      by (simp only: funpow_add o_apply)
    also have "(stepAlone ev now ^^ 2) (Called, w) = (Processing due [], ?w1)"
      using c f2 by (simp add: numeral_2_eq_2)
    also have "(stepAlone ev now ^^ Suc (length due)) (Processing due [], ?w1)
                 = (Returned (Inr rs'), w'\<lparr>isRunning := False\<rparr>)"
      using processing_alone[where ev=ev and now=now and ss=due and rs="[]" and w="?w1"] f by simp
    finally have "(stepAlone ev now ^^ (Suc (length due) + 2)) (Called, w)
                    = (Returned (Inr rs'), w'\<lparr>isRunning := False\<rparr>)" .
    moreover have "executeSchedules ev now w = (Inr rs', w'\<lparr>isRunning := False\<rparr>)"
      using idle Inr f by (simp add: executeSchedules_def Let_def)
    ultimately show ?thesis by (metis fst_conv snd_conv)
  qed
qed

text \<open>
  Claim C3. Invoking \<open>executeSchedules\<close> while a sweep is running processes nothing
  and returns the empty list, leaving the world as it is; an invocation that did enter
  leaves the run flag cleared when it returns, whatever happened to the schedules and
  also when the due query raised; and however any number of invocations interleave,
  starting from an idle executor, at most one of them is sweeping at any moment, and
  the flag is set exactly while one is.
\<close>

theorem sweep_never_doubly_entered:
  "(isRunning w1 \<longrightarrow> executeSchedules ev now w1 = (Inr [], w1)) \<and>
   (\<not> isRunning w2 \<longrightarrow> \<not> isRunning (snd (executeSchedules ev now w2))) \<and>
   (\<not> isRunning w0 \<longrightarrow>
      length (filter sweeping (fst (runEvents evs (replicate n Called, w0)))) \<le> 1 \<and>
      (isRunning (snd (runEvents evs (replicate n Called, w0)))
         \<longleftrightarrow> list_ex sweeping (fst (runEvents evs (replicate n Called, w0)))))"
proof (intro conjI impI)
  assume "isRunning w1"
  then show "executeSchedules ev now w1 = (Inr [], w1)" by (rule executeSchedules_skips)
next
  assume "\<not> isRunning w2"
  then show "\<not> isRunning (snd (executeSchedules ev now w2))" by (rule executeSchedules_clears)
next
  assume idle: "\<not> isRunning w0"
  obtain ts w where r: "runEvents evs (replicate n Called, w0) = (ts, w)"
    by (cases "runEvents evs (replicate n Called, w0)")
  have inv: "length (filter sweeping ts) = (if isRunning w then 1 else 0)"
    using runEvents_oneSweep[OF oneSweep_initial[OF idle], of evs n] r
    by (simp add: oneSweep_def)
  show "length (filter sweeping (fst (runEvents evs (replicate n Called, w0)))) \<le> 1"
    using inv r by simp
  have "list_ex sweeping ts \<longleftrightarrow> filter sweeping ts \<noteq> []"
    by (simp add: list_ex_iff filter_empty_conv)
  then show "isRunning (snd (runEvents evs (replicate n Called, w0)))
               \<longleftrightarrow> list_ex sweeping (fst (runEvents evs (replicate n Called, w0)))"
    using inv r by (auto split: if_splits)
qed

text \<open>
  The witness: a busy executor skips; an idle one sweeps the store of one due schedule
  and comes back idle; and of two invocations, the first has entered and is about to
  query when the second is called and returns at once.
\<close>

theorem sweep_never_doubly_entered_witness:
  "isRunning (world0\<lparr>isRunning := True\<rparr>) \<and>
   executeSchedules calmEnv t0 (world0\<lparr>isRunning := True\<rparr>)
     = (Inr [], world0\<lparr>isRunning := True\<rparr>) \<and>
   \<not> isRunning world0 \<and>
   \<not> isRunning (snd (executeSchedules calmEnv t0 world0)) \<and>
   fst (runEvents [(0, t0, calmEnv), (1, t0, calmEnv)] (replicate 2 Called, world0))
     = [Fetching, Returned (Inr [])] \<and>
   length (filter sweeping
     (fst (runEvents [(0, t0, calmEnv), (1, t0, calmEnv)] (replicate 2 Called, world0)))) \<le> 1 \<and>
   isRunning (snd (runEvents [(0, t0, calmEnv), (1, t0, calmEnv)] (replicate 2 Called, world0)))"
proof -
  have b: "isRunning (world0\<lparr>isRunning := True\<rparr>)" by simp
  have i: "\<not> isRunning world0" by (simp add: world0_def)
  have r: "fst (runEvents [(0, t0, calmEnv), (1, t0, calmEnv)] (replicate 2 Called, world0))
             = [Fetching, Returned (Inr [])]"
    by (simp add: runEvents_def systemStep_def numeral_2_eq_2 world0_def)
  note t = sweep_never_doubly_entered[of "world0\<lparr>isRunning := True\<rparr>" calmEnv t0 world0 world0
      "[(0, t0, calmEnv), (1, t0, calmEnv)]" 2]
  from t b have 1: "executeSchedules calmEnv t0 (world0\<lparr>isRunning := True\<rparr>)
                      = (Inr [], world0\<lparr>isRunning := True\<rparr>)" by blast
  from t i have 2: "\<not> isRunning (snd (executeSchedules calmEnv t0 world0))" by blast
  from t i have 3: "length (filter sweeping
     (fst (runEvents [(0, t0, calmEnv), (1, t0, calmEnv)] (replicate 2 Called, world0)))) \<le> 1"
    by blast
  from t i have 4: "isRunning (snd (runEvents [(0, t0, calmEnv), (1, t0, calmEnv)] (replicate 2 Called, world0)))
     \<longleftrightarrow> list_ex sweeping (fst (runEvents [(0, t0, calmEnv), (1, t0, calmEnv)] (replicate 2 Called, world0)))"
    by blast
  have 5: "isRunning (snd (runEvents [(0, t0, calmEnv), (1, t0, calmEnv)] (replicate 2 Called, world0)))"
    unfolding 4 r by simp
  show ?thesis using b 1 i 2 r 3 5 by simp
qed

subsection \<open>The posts of a run\<close>

text \<open>Row identifiers are positions in the table: every post's is below the table's length.\<close>

definition storeIds :: "world \<Rightarrow> bool" where
  "storeIds w = (\<forall>p \<in> set (posts w). postId p < length (posts w))"


lemma updatePost_new:
  assumes "\<forall>q \<in> set ps. postId q < pid" and "postId p = pid"
  shows "updatePost pid f (ps @ [p]) = ps @ [f p]"
proof -
  have "map (\<lambda>q. if postId q = pid then f q else q) ps = ps"
    using assms(1) by (intro map_idI) auto
  then show ?thesis using assms(2) by (simp add: updatePost_def)
qed

text \<open>What \<open>createAndPostContent\<close> does to the posts table, case by case.\<close>

definition newPost :: "env \<Rightarrow> instant \<Rightarrow> schedule \<Rightarrow> content \<Rightarrow> world \<Rightarrow> post" where
  "newPost ev now s c w =
     \<lparr>postId = length (posts w), postUserId = userId s, postContent = c,
      status = ''published'', publishedAt = Some now, threadsPostId = None,
      views = defaultViews ev, engagements = defaultEngagements ev, postError = None\<rparr>"

definition remoteId :: "env \<Rightarrow> instant \<Rightarrow> string" where
  "remoteId ev now =
     (case threadsAccessToken ev of
        None \<Rightarrow> ''demo_'' @ instantString now
      | Some tok \<Rightarrow>
          if tok \<noteq> [] then ''actual_'' @ instantString now
          else ''demo_'' @ instantString now)"

definition writtenBack :: "env \<Rightarrow> capEnv \<Rightarrow> instant \<Rightarrow> post \<Rightarrow> post" where
  "writtenBack ev ce now p =
     p\<lparr>threadsPostId := Some (remoteId ev now),
       views := randomBelow (rndViews ce) 50,
       engagements := randomBelow (rndEngagements ce) 10\<rparr>"

lemma createAndPostContent_posts:
  assumes "storeIds w"
  shows "posts (snd (createAndPostContent ev ce now s c ty w)) =
           (case postCreate ce of
              Some e \<Rightarrow> posts w
            | None \<Rightarrow>
                (case postUpdate ce of
                   Some e \<Rightarrow> posts w @ [newPost ev now s c w]
                 | None \<Rightarrow> posts w @ [writtenBack ev ce now (newPost ev now s c w)]))"
proof -
  have u: "updatePost (length (posts w)) f (posts w @ [newPost ev now s c w])
             = posts w @ [f (newPost ev now s c w)]" for f
    using assms by (intro updatePost_new) (auto simp: storeIds_def newPost_def)
  show ?thesis
    using u[of "\<lambda>q. q\<lparr>threadsPostId := Some (remoteId ev now),
                         views := randomBelow (rndViews ce) 50,
                         engagements := randomBelow (rndEngagements ce) 10\<rparr>"]
    by (simp add: createAndPostContent_def Let_def newPost_def remoteId_def writtenBack_def
          split: option.splits)
qed





subsection \<open>The executor does not read the governance state\<close>

text \<open>
  Replacing the settings table, the limiter's counters and the notifications before a
  sweep is the same as replacing them after it: the executor neither reads nor writes
  them.
\<close>

definition withGovernance ::
  "(string \<times> string) list \<Rightarrow> (string \<times> usage) list \<Rightarrow> notification list \<Rightarrow> world \<Rightarrow> world" where
  "withGovernance st c ns w = w\<lparr>systemSettings := st, usageCache := c, notifications := ns\<rparr>"

lemma createAndPostContent_governance:
  "createAndPostContent ev ce now s c ty (withGovernance st uc ns w) =
     (fst (createAndPostContent ev ce now s c ty w),
      withGovernance st uc ns (snd (createAndPostContent ev ce now s c ty w)))"
  by (simp add: createAndPostContent_def withGovernance_def Let_def split: option.splits)

lemma executeAIPost_governance:
  "executeAIPost ev se now s (withGovernance st uc ns w) =
     (fst (executeAIPost ev se now s w), withGovernance st uc ns (snd (executeAIPost ev se now s w)))"
proof -
  have g1: "(withGovernance st uc ns w)\<lparr>generateCalls := x\<rparr> = withGovernance st uc ns (w\<lparr>generateCalls := x\<rparr>)" for x
    by (simp add: withGovernance_def)
  have g2: "(withGovernance st uc ns w')\<lparr>aIGenerations := x\<rparr> = withGovernance st uc ns (w'\<lparr>aIGenerations := x\<rparr>)" for x w'
    by (simp add: withGovernance_def)
  have g3: "generateCalls (withGovernance st uc ns w) = generateCalls w"
    "aIGenerations (withGovernance st uc ns w') = aIGenerations w'" for w'
    by (simp_all add: withGovernance_def)
  show ?thesis
    unfolding executeAIPost_def Let_def g3 g1 g2
    by (simp add: createAndPostContent_governance split: sum.splits option.splits prod.splits)
qed

lemma executeSchedule_governance:
  "executeSchedule ev now s (withGovernance st uc ns w) =
     (fst (executeSchedule ev now s w), withGovernance st uc ns (snd (executeSchedule ev now s w)))"
proof -
  let ?se = "perSchedule ev (scheduleId s)"
  let ?d = "\<lambda>w. if name s = greetingName then executeGreetingPost ev ?se now s w
            else if name s = aiPostName then executeAIPost ev ?se now s w
            else executeGenericPost ev ?se now s w"
  have d: "?d (withGovernance st uc ns w) = (fst (?d w), withGovernance st uc ns (snd (?d w)))"
    by (simp add: executeGreetingPost_def executeGenericPost_def createAndPostContent_governance
          executeAIPost_governance)
  obtain out w1 where e: "?d w = (out, w1)" by (cases "?d w")
  have g: "(withGovernance st uc ns w1)\<lparr>adminLogs := x\<rparr> = withGovernance st uc ns (w1\<lparr>adminLogs := x\<rparr>)"
    "adminLogs (withGovernance st uc ns w1) = adminLogs w1" for x
    by (simp_all add: withGovernance_def)
  show ?thesis
    unfolding executeSchedule_def Let_def d e
    by (simp add: g split: sum.splits option.splits)
qed

lemma updateSchedule_governance:
  "updateScheduleAfterExecution ev now s ok (withGovernance st uc ns w) =
     (fst (updateScheduleAfterExecution ev now s ok w),
      withGovernance st uc ns (snd (updateScheduleAfterExecution ev now s ok w)))"
  by (simp add: updateScheduleAfterExecution_def withGovernance_def split: option.splits)

lemma processSchedule_governance:
  "processSchedule ev now s (rs, withGovernance st uc ns w) =
     (fst (processSchedule ev now s (rs, w)),
      withGovernance st uc ns (snd (processSchedule ev now s (rs, w))))"
proof -
  obtain out w1 where e: "executeSchedule ev now s w = (out, w1)"
    by (cases "executeSchedule ev now s w")
  show ?thesis
  proof (cases out)
    case (Inl x)
    then show ?thesis using e by (simp add: processSchedule_def executeSchedule_governance)
  next
    case (Inr r)
    obtain o2 w2 where u: "updateScheduleAfterExecution ev now s (success r) w1 = (o2, w2)"
      by (cases "updateScheduleAfterExecution ev now s (success r) w1")
    show ?thesis using Inr e u
      by (cases o2) (simp_all add: processSchedule_def executeSchedule_governance updateSchedule_governance)
  qed
qed

lemma loop_governance:
  "foldl (\<lambda>acc s. processSchedule ev now s acc) (rs, withGovernance st uc ns w) due =
     (fst (foldl (\<lambda>acc s. processSchedule ev now s acc) (rs, w) due),
      withGovernance st uc ns (snd (foldl (\<lambda>acc s. processSchedule ev now s acc) (rs, w) due)))"
proof (induction due arbitrary: rs w)
  case Nil
  then show ?case by simp
next
  case (Cons s due)
  obtain rs1 w1 where p: "processSchedule ev now s (rs, w) = (rs1, w1)"
    by (cases "processSchedule ev now s (rs, w)")
  show ?case using Cons.IH[of rs1 w1] p by (simp add: processSchedule_governance)
qed

lemma executeSchedules_governance:
  "executeSchedules ev now (withGovernance st uc ns w) =
     (fst (executeSchedules ev now w), withGovernance st uc ns (snd (executeSchedules ev now w)))"
proof -
  have g: "(withGovernance st uc ns w)\<lparr>isRunning := b\<rparr> = withGovernance st uc ns (w\<lparr>isRunning := b\<rparr>)"
    "isRunning (withGovernance st uc ns w) = isRunning w"
    "(withGovernance st uc ns w')\<lparr>isRunning := b\<rparr> = withGovernance st uc ns (w'\<lparr>isRunning := b\<rparr>)" for b w'
    by (simp_all add: withGovernance_def)
  have d: "getDueSchedules ev now (withGovernance st uc ns w') = getDueSchedules ev now w'" for w'
    by (simp add: getDueSchedules_def withGovernance_def split: option.splits)
  show ?thesis
    unfolding executeSchedules_def Let_def g d
    by (simp add: loop_governance g split: sum.splits prod.splits)
qed

lemmas governance_defs =
  checkRateLimit_def actualLimit_def getCustomRateLimit_def findSetting_def cacheKey_def
  cacheGet_def cacheSet_def recordApiUsage_def createRateLimitNotification_def
  recentLimitWarning_def ceilDiv_def checkMaintenanceMode_def settingsMap_def
  maintenanceKeys_def inScheduledWindow_def maintenanceMiddleware_def isAdminApi_def
  serviceUnavailable_def trackTokenUsage_def todayUsage_def maxTokensPerDay_def
  rateLimitMiddleware_def tokenLimitMiddleware_def

lemmas more_input_defs =
  calmGov_def throttledWorld_def aiSchedule_def maintenanceWorld_def postsRequest_def
  okHandler_def launch_def onceWorld_def

lemma parseInt_examples:
  "parseInt ''-1'' = Num (- 1)" "parseInt '' 42abc'' = Num 42" "parseInt ''0x1F'' = Num 31"
  "parseInt ''abc'' = NaN" "parseInt ''100'' = Num 100" "parseInt ''3'' = Num 3"
  by (simp_all add: parseInt_def isWhite_def radixDigits_def digitOf_def Let_def)

lemma morning_next:
  "calculateNextRun (fixedZone 32400000) 1700040000000 1699866000000 ''daily'' = 1700125200000"
  by (simp add: calculateNextRun_def dailyLoop_fixed)

section \<open>Claim C6: a failing publish step\<close>







section \<open>Claim C7: the maintenance gate\<close>

text \<open>
  As stated, claim C7 fails: the executor never asks whether maintenance mode is on. In
  a store in maintenance mode, with emergency access off, the sweep of a due AI post
  sends its request to the generative service and publishes.
\<close>

theorem sweep_runs_in_maintenance:
  "isMaintenanceMode (checkMaintenanceMode calmGov t0 maintenanceWorld) \<and>
   \<not> emergencyAccess (checkMaintenanceMode calmGov t0 maintenanceWorld) \<and>
   generateCalls maintenanceWorld = [] \<and>
   generateCalls (snd (executeSchedules calmEnv t0 maintenanceWorld)) = [0] \<and>
   map success (resultsOf (executeSchedules calmEnv t0 maintenanceWorld)) = [True] \<and>
   map status (posts (snd (executeSchedules calmEnv t0 maintenanceWorld))) = [''published'']"
proof -
  have a: "isMaintenanceMode (checkMaintenanceMode calmGov t0 maintenanceWorld) \<and>
     \<not> emergencyAccess (checkMaintenanceMode calmGov t0 maintenanceWorld)"
    by (simp add: checkMaintenanceMode_def settingsMap_def maintenanceKeys_def Let_def
          more_input_defs input_defs)
  have b: "generateCalls maintenanceWorld = []"
    by (simp add: maintenanceWorld_def world0_def)
  have c: "generateCalls (snd (executeSchedules calmEnv t0 maintenanceWorld)) = [0] \<and>
     map success (resultsOf (executeSchedules calmEnv t0 maintenanceWorld)) = [True] \<and>
     map status (posts (snd (executeSchedules calmEnv t0 maintenanceWorld))) = [''published'']"
    by (simp add: pipeline_defs input_defs more_input_defs morning_next)
  show ?thesis using a b c by blast
qed

text \<open>
  Claim C7, amended. The executor does not consult the maintenance collaborator: with
  any other settings table a sweep returns the same results and sends the same requests
  to the generative service. Maintenance mode is enforced by the HTTP maintenance
  middleware only: when the maintenance check reports maintenance and the request is
  neither for an exempt admin path nor covered by emergency access, the request is
  answered with 503 and the handler is not run; in every other case the handler runs
  (and is run once more if it raises).
\<close>

theorem maintenance_gate_is_http_only:
  "fst (executeSchedules ev now (withGovernance st uc ns w)) = fst (executeSchedules ev now w) \<and>
   generateCalls (snd (executeSchedules ev now (withGovernance st uc ns w)))
     = generateCalls (snd (executeSchedules ev now w)) \<and>
   (isMaintenanceMode (checkMaintenanceMode gv now w) \<and> \<not> isAdminApi req \<and>
    \<not> emergencyAccess (checkMaintenanceMode gv now w) \<longrightarrow>
      statusCode (case fst (maintenanceMiddleware gv now req handler w) of
                    Inr r \<Rightarrow> r | Inl e \<Rightarrow> \<lparr>statusCode = 0, body = e, headers = []\<rparr>) = 503 \<and>
      snd (maintenanceMiddleware gv now req handler w) = w) \<and>
   (\<not> (isMaintenanceMode (checkMaintenanceMode gv now w) \<and> \<not> isAdminApi req \<and>
        \<not> emergencyAccess (checkMaintenanceMode gv now w)) \<longrightarrow>
      maintenanceMiddleware gv now req handler w =
        (case handler w of (Inl e, w2) \<Rightarrow> handler w2 | (Inr r, w2) \<Rightarrow> (Inr r, w2)))"
proof -
  have c1: "fst (executeSchedules ev now (withGovernance st uc ns w)) = fst (executeSchedules ev now w)"
    by (simp add: executeSchedules_governance)
  have c2: "generateCalls (snd (executeSchedules ev now (withGovernance st uc ns w)))
              = generateCalls (snd (executeSchedules ev now w))"
  proof -
    have "generateCalls (withGovernance st uc ns w') = generateCalls w'" for w'
      by (simp add: withGovernance_def)
    then show ?thesis by (simp add: executeSchedules_governance)
  qed
  have c3: "isMaintenanceMode (checkMaintenanceMode gv now w) \<and> \<not> isAdminApi req \<and>
    \<not> emergencyAccess (checkMaintenanceMode gv now w) \<longrightarrow>
      statusCode (case fst (maintenanceMiddleware gv now req handler w) of
                    Inr r \<Rightarrow> r | Inl e \<Rightarrow> \<lparr>statusCode = 0, body = e, headers = []\<rparr>) = 503 \<and>
      snd (maintenanceMiddleware gv now req handler w) = w"
    by (simp add: maintenanceMiddleware_def Let_def serviceUnavailable_def)
  have c4: "\<not> (isMaintenanceMode (checkMaintenanceMode gv now w) \<and> \<not> isAdminApi req \<and>
        \<not> emergencyAccess (checkMaintenanceMode gv now w)) \<longrightarrow>
      maintenanceMiddleware gv now req handler w =
        (case handler w of (Inl e, w2) \<Rightarrow> handler w2 | (Inr r, w2) \<Rightarrow> (Inr r, w2))"
    by (auto simp: maintenanceMiddleware_def Let_def)
  show ?thesis by (intro conjI c1 c2 c3 c4)
qed

theorem maintenance_gate_is_http_only_witness:
  "isMaintenanceMode (checkMaintenanceMode calmGov t0 maintenanceWorld) \<and>
   \<not> isAdminApi postsRequest \<and>
   \<not> emergencyAccess (checkMaintenanceMode calmGov t0 maintenanceWorld) \<and>
   maintenanceMiddleware calmGov t0 postsRequest okHandler maintenanceWorld
     = (Inr (serviceUnavailable defaultMaintenanceMessage), maintenanceWorld) \<and>
   \<not> isMaintenanceMode (checkMaintenanceMode calmGov t0 world0) \<and>
   maintenanceMiddleware calmGov t0 postsRequest okHandler world0
     = (Inr \<lparr>statusCode = 200, body = ''ok'', headers = []\<rparr>, world0) \<and>
   fst (executeSchedules calmEnv t0 (withGovernance [] [] [] maintenanceWorld))
     = fst (executeSchedules calmEnv t0 maintenanceWorld)"
proof -
  have a: "isMaintenanceMode (checkMaintenanceMode calmGov t0 maintenanceWorld) \<and>
     \<not> emergencyAccess (checkMaintenanceMode calmGov t0 maintenanceWorld)"
    by (simp add: checkMaintenanceMode_def settingsMap_def maintenanceKeys_def Let_def
          more_input_defs input_defs)
  have b: "\<not> isAdminApi postsRequest"
    by (simp add: isAdminApi_def postsRequest_def)
  have c: "maintenanceMiddleware calmGov t0 postsRequest okHandler maintenanceWorld
     = (Inr (serviceUnavailable defaultMaintenanceMessage), maintenanceWorld)"
    by (simp add: maintenanceMiddleware_def checkMaintenanceMode_def settingsMap_def
          maintenanceKeys_def Let_def isAdminApi_def defaultMaintenanceMessage_def
          more_input_defs input_defs)
  have d: "\<not> isMaintenanceMode (checkMaintenanceMode calmGov t0 world0)"
    by (simp add: checkMaintenanceMode_def settingsMap_def maintenanceKeys_def Let_def
          more_input_defs input_defs)
  note t = maintenance_gate_is_http_only[of calmEnv t0 "[]" "[]" "[]" maintenanceWorld calmGov
      postsRequest okHandler]
  note t' = maintenance_gate_is_http_only[of calmEnv t0 "[]" "[]" "[]" world0 calmGov
      postsRequest okHandler]
  from t have e: "fst (executeSchedules calmEnv t0 (withGovernance [] [] [] maintenanceWorld))
     = fst (executeSchedules calmEnv t0 maintenanceWorld)" by blast
  from t' d have "maintenanceMiddleware calmGov t0 postsRequest okHandler world0 =
        (case okHandler world0 of (Inl e, w2) \<Rightarrow> okHandler w2 | (Inr r, w2) \<Rightarrow> (Inr r, w2))"
    by blast
  then have f: "maintenanceMiddleware calmGov t0 postsRequest okHandler world0
     = (Inr \<lparr>statusCode = 200, body = ''ok'', headers = []\<rparr>, world0)"
    by (simp add: okHandler_def)
  show ?thesis using a b c d e f by blast
qed

section \<open>Claim C8: a once schedule is deactivated, not deleted\<close>

definition rowsOf :: "string \<Rightarrow> world \<Rightarrow> schedule list" where
  "rowsOf i w = filter (\<lambda>row. scheduleId row = i) (schedules w)"

definition laterSweeps :: "(env \<times> instant) list \<Rightarrow> world \<Rightarrow> world" where
  "laterSweeps runs w = foldl (\<lambda>w' run. snd (executeSchedules (fst run) (snd run) w')) w runs"

lemma updateSchedule_ids:
  "map scheduleId (schedules (snd (updateScheduleAfterExecution ev now s ok w)))
     = map scheduleId (schedules w)"
  by (simp add: updateScheduleAfterExecution_def updateData_scheduleId o_def
      split: option.splits)

lemma updateSchedule_other_rows:
  "scheduleId s \<noteq> i \<Longrightarrow>
   rowsOf i (snd (updateScheduleAfterExecution ev now s ok w)) = rowsOf i w"
proof -
  assume n: "scheduleId s \<noteq> i"
  have "filter (\<lambda>row. scheduleId row = i)
          (map (\<lambda>row. if scheduleId row = scheduleId s then updateData ev now s ok row else row) rows)
        = filter (\<lambda>row. scheduleId row = i) rows" for rows
    using n by (induction rows) (auto simp: updateData_scheduleId)
  then show ?thesis
    by (simp add: updateScheduleAfterExecution_def rowsOf_def split: option.splits)
qed

lemma processSchedule_schedules:
  "map scheduleId (schedules (snd (processSchedule ev now s (rs, w)))) = map scheduleId (schedules w) \<and>
   (scheduleId s \<noteq> i \<longrightarrow> rowsOf i (snd (processSchedule ev now s (rs, w))) = rowsOf i w)"
proof -
  obtain out w1 where e: "executeSchedule ev now s w = (out, w1)"
    by (cases "executeSchedule ev now s w")
  have c: "schedules w1 = schedules w"
    using executeSchedule_control[of w ev now s] e by (simp add: sameControl_def)
  then have c': "rowsOf i w1 = rowsOf i w" by (simp add: rowsOf_def)
  show ?thesis
  proof (cases out)
    case (Inl x)
    then show ?thesis using e c c' by (simp add: processSchedule_def)
  next
    case (Inr r)
    obtain o2 w2 where u: "updateScheduleAfterExecution ev now s (success r) w1 = (o2, w2)"
      by (cases "updateScheduleAfterExecution ev now s (success r) w1")
    have "map scheduleId (schedules w2) = map scheduleId (schedules w1)"
      using updateSchedule_ids[of ev now s "success r" w1] u by simp
    moreover have "scheduleId s \<noteq> i \<longrightarrow> rowsOf i w2 = rowsOf i w1"
      using updateSchedule_other_rows[of s i ev now "success r" w1] u by simp
    ultimately show ?thesis
      using Inr e u c c' by (simp add: processSchedule_def split: sum.splits)
  qed
qed

lemma loop_schedules:
  assumes "\<forall>s \<in> set due. scheduleId s \<noteq> i"
  shows "map scheduleId (schedules (snd (foldl (\<lambda>acc s. processSchedule ev now s acc) (rs, w) due)))
           = map scheduleId (schedules w) \<and>
         rowsOf i (snd (foldl (\<lambda>acc s. processSchedule ev now s acc) (rs, w) due)) = rowsOf i w"
  using assms
proof (induction due arbitrary: rs w)
  case Nil
  then show ?case by simp
next
  case (Cons s due)
  obtain rs1 w1 where p: "processSchedule ev now s (rs, w) = (rs1, w1)"
    by (cases "processSchedule ev now s (rs, w)")
  have 1: "map scheduleId (schedules w1) = map scheduleId (schedules w)" "rowsOf i w1 = rowsOf i w"
    using processSchedule_schedules[of ev now s rs w i] p Cons.prems by simp_all
  have "\<forall>s \<in> set due. scheduleId s \<noteq> i" using Cons.prems by simp
  from Cons.IH[OF this, of rs1 w1] show ?case using p 1 by simp
qed

lemma due_are_active_rows:
  assumes "getDueSchedules ev now w = Inr due" and "s \<in> set due"
  shows "s \<in> set (schedules w) \<and> isActive s"
  using assms by (auto simp: getDueSchedules_def isDue_def split: option.splits)

lemma sweep_keeps_inactive:
  assumes "\<forall>row \<in> set (rowsOf i w). \<not> isActive row"
  shows "map scheduleId (schedules (snd (executeSchedules ev now w))) = map scheduleId (schedules w) \<and>
         rowsOf i (snd (executeSchedules ev now w)) = rowsOf i w"
proof (cases "isRunning w")
  case True
  then show ?thesis by (simp add: executeSchedules_def)
next
  case False
  let ?w1 = "w\<lparr>isRunning := True\<rparr>"
  show ?thesis
  proof (cases "getDueSchedules ev now ?w1")
    case (Inl e)
    then show ?thesis using False by (simp add: executeSchedules_def Let_def rowsOf_def)
  next
    case (Inr due)
    have "\<forall>s \<in> set due. scheduleId s \<noteq> i"
    proof
      fix s assume "s \<in> set due"
      from due_are_active_rows[OF Inr this] have "s \<in> set (schedules w)" "isActive s" by simp_all
      then show "scheduleId s \<noteq> i" using assms by (auto simp: rowsOf_def)
    qed
    obtain rs' w' where f: "foldl (\<lambda>acc s. processSchedule ev now s acc) ([], ?w1) due = (rs', w')"
      by (cases "foldl (\<lambda>acc s. processSchedule ev now s acc) ([], ?w1) due")
    from loop_schedules[OF \<open>\<forall>s \<in> set due. scheduleId s \<noteq> i\<close>, of ev now "[]" ?w1]
    have "map scheduleId (schedules w') = map scheduleId (schedules w) \<and> rowsOf i w' = rowsOf i w"
      using f by (simp add: rowsOf_def)
    then show ?thesis using False Inr f
      by (simp add: executeSchedules_def Let_def rowsOf_def)
  qed
qed

lemma laterSweeps_keep_inactive:
  assumes "\<forall>row \<in> set (rowsOf i w). \<not> isActive row"
  shows "map scheduleId (schedules (laterSweeps runs w)) = map scheduleId (schedules w) \<and>
         rowsOf i (laterSweeps runs w) = rowsOf i w"
  using assms
proof (induction runs arbitrary: w)
  case Nil
  then show ?case by (simp add: laterSweeps_def)
next
  case (Cons run runs)
  let ?w1 = "snd (executeSchedules (fst run) (snd run) w)"
  have 1: "map scheduleId (schedules ?w1) = map scheduleId (schedules w)" "rowsOf i ?w1 = rowsOf i w"
    using sweep_keeps_inactive[OF Cons.prems, of "fst run" "snd run"] by simp_all
  then have "\<forall>row \<in> set (rowsOf i ?w1). \<not> isActive row" using Cons.prems by simp
  from Cons.IH[OF this] show ?case using 1 by (simp add: laterSweeps_def)
qed

lemma inactive_not_due:
  assumes "\<forall>row \<in> set (rowsOf i w). \<not> isActive row"
  shows "i \<notin> set (dueIds ev now w)"
  using assms
  by (auto simp: dueIds_def getDueSchedules_def isDue_def rowsOf_def split: option.splits)

lemma findSchedule_rowsOf:
  "rowsOf i w \<noteq> [] \<Longrightarrow> \<exists>row. findSchedule i w = Some row \<and> row \<in> set (rowsOf i w)"
proof -
  have "filter (\<lambda>row. scheduleId row = i) rows \<noteq> [] \<Longrightarrow>
        \<exists>row. find (\<lambda>row. scheduleId row = i) rows = Some row \<and>
              row \<in> set (filter (\<lambda>row. scheduleId row = i) rows)" for rows
    by (induction rows) auto
  then show "rowsOf i w \<noteq> [] \<Longrightarrow> ?thesis"
    by (simp add: rowsOf_def findSchedule_def)
qed

text \<open>
  As stated, claim C8 fails when the update of the schedule row raises: the loop catches
  the error and records a failed result after the successful one, the row keeps
  \<open>isActive\<close> true and its \<open>nextRun\<close>, the due query selects it again a minute
  later, and the next sweep publishes a second post for the one-shot schedule.
\<close>

theorem once_schedule_fires_again:
  "frequency launch = ''once'' \<and>
   map success (resultsOf (executeSchedules noScheduleUpdateEnv t0 onceWorld)) = [True, False] \<and>
   map isActive (schedules (snd (executeSchedules noScheduleUpdateEnv t0 onceWorld))) = [True] \<and>
   dueIds noScheduleUpdateEnv (t0 + 60000)
     (snd (executeSchedules noScheduleUpdateEnv t0 onceWorld)) = [''s2''] \<and>
   length (posts (snd (executeSchedules noScheduleUpdateEnv t0 onceWorld))) = 1 \<and>
   length (posts (snd (executeSchedules noScheduleUpdateEnv (t0 + 60000)
     (snd (executeSchedules noScheduleUpdateEnv t0 onceWorld))))) = 2"
proof -
  have f: "frequency launch = ''once''" by (simp add: launch_def)
  obtain rs w1 where e: "executeSchedules noScheduleUpdateEnv t0 onceWorld = (rs, w1)"
    by (cases "executeSchedules noScheduleUpdateEnv t0 onceWorld")
  have r: "map success (resultsOf (rs, w1)) = [True, False]"
    unfolding e[symmetric] by (simp add: pipeline_defs input_defs more_input_defs)
  have w: "schedules w1 = [launch]" "length (posts w1) = 1" "\<not> isRunning w1"
    using e[symmetric] by (simp_all add: pipeline_defs input_defs more_input_defs)
  have a: "map isActive (schedules w1) = [True]"
    by (simp add: w launch_def)
  have d: "dueIds noScheduleUpdateEnv (t0 + 60000) w1 = [''s2'']"
    by (simp add: dueIds_def getDueSchedules_def isDue_def w launch_def noScheduleUpdateEnv_def
          calmEnv_def t0_def)
  have p: "posts w1 = posts (snd (executeSchedules noScheduleUpdateEnv t0 onceWorld))"
    by (simp add: e)
  have q: "length (posts (snd (executeSchedules noScheduleUpdateEnv (t0 + 60000) w1)))
             = length (posts w1) + 1"
    by (simp add: pipeline_defs w noScheduleUpdateEnv_def calmEnv_def calmSched_def calmCap_def
          launch_def t0_def)
  show ?thesis
    using f r a d w(2) q by (simp add: e)
qed

text \<open>
  Claim C8, amended. For a schedule with frequency \<open>once\<close> that is in the store, when
  neither the write of the error log nor the update of the schedule row raises: after
  its execution (the loop body having run its update), and after any number of later
  sweeps, the schedule rows of the store have the same identifiers as before, in the
  same order, so none was deleted; the schedule is there with \<open>isActive\<close> false;
  and the due query, at whatever instant, does not select it.
\<close>

theorem once_schedule_deactivated:
  assumes "s \<in> set (schedules w)"
      and "frequency s = ''once''"
      and "errorLogCreate (perSchedule ev (scheduleId s)) = None"
      and "scheduleUpdate (perSchedule ev (scheduleId s)) = None"
  shows "map scheduleId (schedules (laterSweeps runs (snd (processSchedule ev now s (rs, w)))))
           = map scheduleId (schedules w) \<and>
         (\<exists>row. findSchedule (scheduleId s)
                  (laterSweeps runs (snd (processSchedule ev now s (rs, w)))) = Some row \<and>
                \<not> isActive row) \<and>
         scheduleId s \<notin> set (dueIds ev' now'
                  (laterSweeps runs (snd (processSchedule ev now s (rs, w)))))"
proof -
  let ?i = "scheduleId s"
  let ?w' = "snd (processSchedule ev now s (rs, w))"
  from processSchedule_ok[OF assms(3,4,1), of now rs]
  obtain r w1 where "processSchedule ev now s (rs, w) =
      (rs @ [r],
       w1\<lparr>schedules := map (\<lambda>row. if scheduleId row = ?i
                                  then updateData ev now s (success r) row else row)
                            (schedules w)\<rparr>)"
    by blast
  then have p: "?w' =
      w1\<lparr>schedules := map (\<lambda>row. if scheduleId row = ?i
                                 then updateData ev now s (success r) row else row)
                           (schedules w)\<rparr>"
    by simp
  have ids: "map scheduleId (schedules ?w') = map scheduleId (schedules w)"
    using processSchedule_schedules[of ev now s rs w ?i] by simp
  have off: "\<forall>row \<in> set (rowsOf ?i ?w'). \<not> isActive row"
    unfolding p using assms(2) by (auto simp: rowsOf_def updateData_def Let_def)
  have "?i \<in> set (map scheduleId (schedules ?w'))"
    unfolding ids using assms(1) by simp
  then have ne: "rowsOf ?i ?w' \<noteq> []"
    by (auto simp: rowsOf_def filter_empty_conv)
  note k = laterSweeps_keep_inactive[OF off, of runs]
  have 1: "map scheduleId (schedules (laterSweeps runs ?w')) = map scheduleId (schedules w)"
    using k ids by simp
  have off': "\<forall>row \<in> set (rowsOf ?i (laterSweeps runs ?w')). \<not> isActive row"
    using k off by simp
  have "rowsOf ?i (laterSweeps runs ?w') \<noteq> []" using k ne by simp
  from findSchedule_rowsOf[OF this] off'
  have 2: "\<exists>row. findSchedule ?i (laterSweeps runs ?w') = Some row \<and> \<not> isActive row"
    by blast
  have 3: "?i \<notin> set (dueIds ev' now' (laterSweeps runs ?w'))"
    using off' by (rule inactive_not_due)
  show ?thesis using 1 2 3 by blast
qed

theorem once_schedule_deactivated_witness:
  "launch \<in> set (schedules onceWorld) \<and>
   frequency launch = ''once'' \<and>
   errorLogCreate (perSchedule calmEnv (scheduleId launch)) = None \<and>
   scheduleUpdate (perSchedule calmEnv (scheduleId launch)) = None \<and>
   dueIds calmEnv t0 onceWorld = [''s2''] \<and>
   map scheduleId (schedules (laterSweeps [(calmEnv, t0 + 60000)]
       (snd (processSchedule calmEnv t0 launch ([], onceWorld))))) = [''s2''] \<and>
   (\<exists>row. findSchedule (scheduleId launch) (laterSweeps [(calmEnv, t0 + 60000)]
       (snd (processSchedule calmEnv t0 launch ([], onceWorld)))) = Some row \<and>
     \<not> isActive row) \<and>
   scheduleId launch \<notin> set (dueIds calmEnv (t0 + 60000) (laterSweeps [(calmEnv, t0 + 60000)]
       (snd (processSchedule calmEnv t0 launch ([], onceWorld)))))"
proof -
  have h1: "launch \<in> set (schedules onceWorld)" by (simp add: onceWorld_def)
  have h2: "frequency launch = ''once''" by (simp add: launch_def)
  have h3: "errorLogCreate (perSchedule calmEnv (scheduleId launch)) = None"
    by (simp add: calmEnv_def calmSched_def)
  have h4: "scheduleUpdate (perSchedule calmEnv (scheduleId launch)) = None"
    by (simp add: calmEnv_def calmSched_def)
  have d: "dueIds calmEnv t0 onceWorld = [''s2'']"
    by (simp add: dueIds_def getDueSchedules_def isDue_def onceWorld_def launch_def
          calmEnv_def t0_def)
  have i: "map scheduleId (schedules onceWorld) = [''s2'']"
    by (simp add: onceWorld_def launch_def)
  show ?thesis
    using h1 h2 h3 h4 d
      once_schedule_deactivated[OF h1 h2 h3 h4, of "[(calmEnv, t0 + 60000)]" t0 "[]" calmEnv
        "t0 + 60000"]
    unfolding i by blast
qed

section \<open>Claim C9: the engagement counters\<close>

text \<open>
  As stated, claim C9 fails: the write-back of the publish step sets both counters. A
  post is created with the store's defaults (here 0 and 0, as the run in which the
  write-back is refused shows) and leaves the sweep with the drawn values.
\<close>

theorem executor_sets_counters:
  "defaultViews calmEnv = 0 \<and> defaultEngagements calmEnv = 0 \<and>
   map views (posts (snd (executeSchedules noUpdateEnv t0 world0))) = [0] \<and>
   map engagements (posts (snd (executeSchedules noUpdateEnv t0 world0))) = [0] \<and>
   map views (posts (snd (executeSchedules calmEnv t0 world0))) = [25] \<and>
   map engagements (posts (snd (executeSchedules calmEnv t0 world0))) = [5]"
proof -
  have a: "map views (posts (snd (executeSchedules noUpdateEnv t0 world0))) = [0] \<and>
     map engagements (posts (snd (executeSchedules noUpdateEnv t0 world0))) = [0]"
    by (simp add: pipeline_defs input_defs)
  have b: "map views (posts (snd (executeSchedules calmEnv t0 world0))) = [25] \<and>
     map engagements (posts (snd (executeSchedules calmEnv t0 world0))) = [5]"
    by (simp add: pipeline_defs input_defs morning_next)
  have c: "defaultViews calmEnv = 0 \<and> defaultEngagements calmEnv = 0"
    by (simp add: calmEnv_def)
  show ?thesis using a b c by blast
qed

text \<open>
  Claim C9, amended. The executor does write the counters of the Post it creates: when
  \<open>createAndPostContent\<close> succeeds, that Post is the one new row, its \<open>views\<close> is
  \<open>floor (random * 50)\<close>, an integer from 0 to 49, and its \<open>engagements\<close> is
  \<open>floor (random * 10)\<close>, from 0 to 9. The Posts that were in the store before are
  left as they were.
\<close>

theorem publish_step_sets_counters:
  assumes "storeIds w"
      and "createAndPostContent ev ce now s c ty w = (Inr r, w')"
      and "0 \<le> rndViews ce \<and> rndViews ce < 1"
      and "0 \<le> rndEngagements ce \<and> rndEngagements ce < 1"
  shows "\<exists>p. posts w' = posts w @ [p] \<and> resPostId r = Some (postId p) \<and>
             views p = \<lfloor>rndViews ce * 50\<rfloor> \<and> 0 \<le> views p \<and> views p < 50 \<and>
             engagements p = \<lfloor>rndEngagements ce * 10\<rfloor> \<and>
             0 \<le> engagements p \<and> engagements p < 10"
proof -
  have ok: "postCreate ce = None \<and> postUpdate ce = None"
    using assms(2) by (auto simp: createAndPostContent_def Let_def split: option.splits)
  let ?p = "writtenBack ev ce now (newPost ev now s c w)"
  have p: "posts w' = posts w @ [?p]"
    using createAndPostContent_posts[OF assms(1), of ev ce now s c ty] assms(2) ok by simp
  have i: "resPostId r = Some (postId ?p)"
    using assms(2) ok
    by (auto simp: createAndPostContent_def Let_def writtenBack_def newPost_def split: option.splits)
  have v: "views ?p = \<lfloor>rndViews ce * 50\<rfloor>" "engagements ?p = \<lfloor>rndEngagements ce * 10\<rfloor>"
    by (simp_all add: writtenBack_def randomBelow_def)
  have "0 \<le> rndViews ce * 50" "rndViews ce * 50 < 50" using assms(3) by simp_all
  then have bv: "0 \<le> \<lfloor>rndViews ce * 50\<rfloor>" "\<lfloor>rndViews ce * 50\<rfloor> < 50"
    by (simp_all add: floor_less_iff)
  have "0 \<le> rndEngagements ce * 10" "rndEngagements ce * 10 < 10" using assms(4) by simp_all
  then have be: "0 \<le> \<lfloor>rndEngagements ce * 10\<rfloor>" "\<lfloor>rndEngagements ce * 10\<rfloor> < 10"
    by (simp_all add: floor_less_iff)
  show ?thesis using p i v bv be by auto
qed

theorem publish_step_sets_counters_witness:
  "storeIds world0 \<and>
   fst (createAndPostContent calmEnv calmCap t0 morning (GenericText ''morning'' t0)
          ''generic_post'' world0)
     = Inr \<lparr>resScheduleId = ''s1'', success = True,
            message = ''generic_post executed successfully'', resError = None,
            resPostId = Some 0, resThreadsPostId = Some ''demo_1700040000000''\<rparr> \<and>
   0 \<le> rndViews calmCap \<and> rndViews calmCap < 1 \<and>
   0 \<le> rndEngagements calmCap \<and> rndEngagements calmCap < 1 \<and>
   (\<exists>p. posts (snd (createAndPostContent calmEnv calmCap t0 morning (GenericText ''morning'' t0)
                     ''generic_post'' world0)) = posts world0 @ [p] \<and>
        views p = 25 \<and> 0 \<le> views p \<and> views p < 50 \<and>
        engagements p = 5 \<and> 0 \<le> engagements p \<and> engagements p < 10)"
proof -
  let ?c = "createAndPostContent calmEnv calmCap t0 morning (GenericText ''morning'' t0)
              ''generic_post'' world0"
  let ?r = "\<lparr>resScheduleId = ''s1'', success = True,
            message = ''generic_post executed successfully'', resError = None,
            resPostId = Some 0, resThreadsPostId = Some ''demo_1700040000000''\<rparr>"
  have h0: "storeIds world0" by (simp add: storeIds_def world0_def)
  have d: "instantString 1700040000000 = ''1700040000000''"
    by (simp add: instantString_def decimal.simps digitChar_def)
  have f: "fst ?c = Inr ?r"
    using d by (simp add: createAndPostContent_def Let_def input_defs)
  then have e: "?c = (Inr ?r, snd ?c)" by (metis prod.collapse)
  have h3: "0 \<le> rndViews calmCap \<and> rndViews calmCap < 1" by (simp add: calmCap_def)
  have h4: "0 \<le> rndEngagements calmCap \<and> rndEngagements calmCap < 1" by (simp add: calmCap_def)
  have v: "\<lfloor>rndViews calmCap * 50\<rfloor> = 25" "\<lfloor>rndEngagements calmCap * 10\<rfloor> = 5"
    by (simp_all add: calmCap_def)
  from publish_step_sets_counters[OF h0 e h3 h4]
  have "\<exists>p. posts (snd ?c) = posts world0 @ [p] \<and>
        views p = 25 \<and> 0 \<le> views p \<and> views p < 50 \<and>
        engagements p = 5 \<and> 0 \<le> engagements p \<and> engagements p < 10"
    unfolding v by blast
  then show ?thesis using h0 f h3 h4 by blast
qed

section \<open>Claim C4: the hourly call counter\<close>

text \<open>The counter and reset time a check starts from: a missing or expired entry opens a window.\<close>

definition windowAt :: "instant \<Rightarrow> string \<Rightarrow> world \<Rightarrow> usage" where
  "windowAt now key w =
     (case cacheGet w key of
        None \<Rightarrow> \<lparr>count = 0, reset = now + 60 * 60 * 1000\<rparr>
      | Some u \<Rightarrow> if reset u < now then \<lparr>count = 0, reset = now + 60 * 60 * 1000\<rparr> else u)"

lemma map_of_set:
  "map_of (if list_ex (\<lambda>kv. fst kv = k) c
           then map (\<lambda>kv. if fst kv = k then (k, u) else kv) c
           else c @ [(k, u)]) k = Some u"
proof (induction c)
  case Nil
  then show ?case by simp
next
  case (Cons a c)
  then show ?case by (cases a) (auto split: if_splits)
qed

lemma cacheGet_cacheSet: "cacheGet (cacheSet k u w) k = Some u"
  unfolding cacheGet_def cacheSet_def using map_of_set[of k "usageCache w" u] by simp

lemma recordApiUsage_frame:
  "usageCache (recordApiUsage gv now i e m w) = usageCache w \<and>
   systemSettings (recordApiUsage gv now i e m w) = systemSettings w"
  by (simp add: recordApiUsage_def split: option.splits)

lemma createRateLimitNotification_frame:
  "usageCache (createRateLimitNotification gv now i e l w) = usageCache w \<and>
   systemSettings (createRateLimitNotification gv now i e l w) = systemSettings w"
  by (simp add: createRateLimitNotification_def split: option.splits)

lemma cacheSet_settings: "systemSettings (cacheSet k u w) = systemSettings w"
  by (simp add: cacheSet_def)

lemma actualLimit_settings:
  assumes "systemSettings w' = systemSettings w"
  shows "actualLimit gv e l w' = actualLimit gv e l w"
  unfolding actualLimit_def getCustomRateLimit_def findSetting_def assms by (rule refl)

lemma checkRateLimit_step:
  assumes "checkRateLimit gv now i e m l w = (r, w')"
  shows "allowed r = (count (windowAt now (cacheKey i e m) w) + 1 \<le> actualLimit gv e l w) \<and>
         limit r = actualLimit gv e l w \<and>
         resetAt r = reset (windowAt now (cacheKey i e m) w) \<and>
         cacheGet w' (cacheKey i e m)
           = Some \<lparr>count = count (windowAt now (cacheKey i e m) w) + 1,
                  reset = reset (windowAt now (cacheKey i e m) w)\<rparr> \<and>
         systemSettings w' = systemSettings w"
proof -
  let ?k = "cacheKey i e m"
  let ?u0 = "windowAt now ?k w"
  let ?u1 = "?u0\<lparr>count := count ?u0 + 1\<rparr>"
  let ?L = "actualLimit gv e l w"
  let ?w2 = "recordApiUsage gv now i e m (cacheSet ?k ?u1 w)"
  let ?w3 = "if \<not> count ?u1 \<le> ?L then createRateLimitNotification gv now i e ?L ?w2 else ?w2"
  have c: "checkRateLimit gv now i e m l w =
      (\<lparr>allowed = (count ?u1 \<le> ?L), limit = ?L, remaining = max 0 (?L - count ?u1),
        resetAt = reset ?u1,
        retryAfter = (if count ?u1 \<le> ?L then None else Some (ceilDiv (reset ?u1 - now) 1000))\<rparr>,
       ?w3)"
    by (simp add: checkRateLimit_def windowAt_def Let_def cong: option.case_cong if_cong)
  have g2: "cacheGet ?w2 ?k = Some ?u1"
    using cacheGet_cacheSet[of ?k ?u1 w] recordApiUsage_frame[of gv now i e m "cacheSet ?k ?u1 w"]
    by (simp add: cacheGet_def)
  have g3: "cacheGet ?w3 ?k = Some ?u1"
    using g2 createRateLimitNotification_frame[of gv now i e ?L ?w2]
    by (simp add: cacheGet_def)
  have s3: "systemSettings ?w3 = systemSettings w"
    using createRateLimitNotification_frame[of gv now i e ?L ?w2]
      recordApiUsage_frame[of gv now i e m "cacheSet ?k ?u1 w"] cacheSet_settings[of ?k ?u1 w]
    by simp
  have u: "?u1 = \<lparr>count = count ?u0 + 1, reset = reset ?u0\<rparr>" by simp
  from assms c have r: "r = \<lparr>allowed = (count ?u1 \<le> ?L), limit = ?L,
        remaining = max 0 (?L - count ?u1), resetAt = reset ?u1,
        retryAfter = (if count ?u1 \<le> ?L then None else Some (ceilDiv (reset ?u1 - now) 1000))\<rparr>"
    and w: "w' = ?w3" by simp_all
  show ?thesis
    unfolding r w using g3 s3 u by simp
qed

lemma windowAt_open:
  "cacheGet w key = Some u \<Longrightarrow> \<not> reset u < now \<Longrightarrow> windowAt now key w = u"
  by (simp add: windowAt_def)

lemma checkAll_length: "length (fst (checkAll gv i e m l ts w)) = length ts"
proof (induction ts arbitrary: w)
  case Nil
  then show ?case by simp
next
  case (Cons t ts)
  obtain r w1 where s: "checkRateLimit gv t i e m l w = (r, w1)"
    by (cases "checkRateLimit gv t i e m l w")
  obtain rs w2 where a: "checkAll gv i e m l ts w1 = (rs, w2)"
    by (cases "checkAll gv i e m l ts w1")
  show ?case using Cons.IH[of w1] s a by simp
qed

lemma checkAll_in_window:
  assumes "cacheGet w (cacheKey i e m) = Some \<lparr>count = c, reset = rt\<rparr>"
      and "\<forall>t \<in> set ts. t \<le> rt"
  shows "(\<forall>k < length ts. allowed (fst (checkAll gv i e m l ts w) ! k)
                             = (c + int k + 1 \<le> actualLimit gv e l w)) \<and>
         cacheGet (snd (checkAll gv i e m l ts w)) (cacheKey i e m)
           = Some \<lparr>count = c + int (length ts), reset = rt\<rparr> \<and>
         systemSettings (snd (checkAll gv i e m l ts w)) = systemSettings w"
  using assms
proof (induction ts arbitrary: w c)
  case Nil
  then show ?case by simp
next
  case (Cons t ts)
  obtain r w1 where s: "checkRateLimit gv t i e m l w = (r, w1)"
    by (cases "checkRateLimit gv t i e m l w")
  obtain rs w2 where a: "checkAll gv i e m l ts w1 = (rs, w2)"
    by (cases "checkAll gv i e m l ts w1")
  have "\<not> rt < t" using Cons.prems(2) by simp
  then have wa: "windowAt t (cacheKey i e m) w = \<lparr>count = c, reset = rt\<rparr>"
    using windowAt_open[OF Cons.prems(1)] by simp
  note st = checkRateLimit_step[OF s, unfolded wa]
  have g1: "cacheGet w1 (cacheKey i e m) = Some \<lparr>count = c + 1, reset = rt\<rparr>"
    using st by simp
  have l1: "actualLimit gv e l w1 = actualLimit gv e l w"
    using st actualLimit_settings by blast
  have "\<forall>t \<in> set ts. t \<le> rt" using Cons.prems(2) by simp
  note ih = Cons.IH[OF g1 this, unfolded a l1, simplified]
  have r0: "allowed r = (c + 1 \<le> actualLimit gv e l w)" using st by simp
  have "allowed ((r # rs) ! k) = (c + int k + 1 \<le> actualLimit gv e l w)"
    if "k < Suc (length ts)" for k
  proof (cases k)
    case 0
    then show ?thesis using r0 by simp
  next
    case (Suc j)
    then have "j < length ts" using that by simp
    then have "allowed (rs ! j) = (c + 1 + int j + 1 \<le> actualLimit gv e l w)"
      using ih by simp
    then show ?thesis using Suc by (simp add: algebra_simps)
  qed
  moreover have "cacheGet w2 (cacheKey i e m) = Some \<lparr>count = c + int (Suc (length ts)), reset = rt\<rparr>"
    using ih by (simp add: algebra_simps)
  moreover have "systemSettings w2 = systemSettings w" using ih st by simp
  ultimately show ?case using s a by simp
qed

text \<open>
  Claim C4. For a fixed key whose window opens with the first call (no entry in the
  cache, or an expired one) and a limit \<open>L\<close> in force, the calls made before the
  window's reset time has passed are allowed exactly as long as their number does not
  exceed \<open>L\<close>: the first \<open>L\<close> are allowed and call \<open>L + 1\<close> is denied. A call after
  the reset time starts the count again at 1 and is allowed (given \<open>L\<close> is at least 1).
  Every call increments the counter first and answers \<open>allowed = count \<le> limit\<close>.
\<close>

theorem hourly_limit_window:
  assumes "cacheGet w (cacheKey i e m) = None \<or>
           (\<exists>u. cacheGet w (cacheKey i e m) = Some u \<and> reset u < t1)"
      and "\<forall>t \<in> set ts. t \<le> t1 + 3600000"
      and "actualLimit gv e l w = L"
  shows "(\<forall>k < Suc (length ts).
            allowed (fst (checkAll gv i e m l (t1 # ts) w) ! k) = (int k + 1 \<le> L)) \<and>
         (\<forall>t'. t1 + 3600000 < t' \<longrightarrow>
            allowed (fst (checkRateLimit gv t' i e m l (snd (checkAll gv i e m l (t1 # ts) w))))
              = (1 \<le> L) \<and>
            cacheGet (snd (checkRateLimit gv t' i e m l (snd (checkAll gv i e m l (t1 # ts) w))))
                (cacheKey i e m)
              = Some \<lparr>count = 1, reset = t' + 3600000\<rparr>) \<and>
         (\<forall>now w0. \<exists>u.
            cacheGet (snd (checkRateLimit gv now i e m l w0)) (cacheKey i e m) = Some u \<and>
            allowed (fst (checkRateLimit gv now i e m l w0))
              = (count u \<le> limit (fst (checkRateLimit gv now i e m l w0))))"
proof -
  let ?k = "cacheKey i e m"
  obtain r w1 where s: "checkRateLimit gv t1 i e m l w = (r, w1)"
    by (cases "checkRateLimit gv t1 i e m l w")
  obtain rs w2 where a: "checkAll gv i e m l ts w1 = (rs, w2)"
    by (cases "checkAll gv i e m l ts w1")
  have wa: "windowAt t1 ?k w = \<lparr>count = 0, reset = t1 + 3600000\<rparr>"
    using assms(1) by (auto simp: windowAt_def)
  note st = checkRateLimit_step[OF s, unfolded wa]
  have g1: "cacheGet w1 ?k = Some \<lparr>count = 1, reset = t1 + 3600000\<rparr>"
    using st by simp
  have l1: "actualLimit gv e l w1 = L"
    using st actualLimit_settings[of w1 w gv e l] assms(3) by simp
  note iw = checkAll_in_window[OF g1 assms(2), of gv l, unfolded a l1, simplified]
  have c1: "\<forall>k < Suc (length ts).
            allowed (fst (checkAll gv i e m l (t1 # ts) w) ! k) = (int k + 1 \<le> L)"
  proof (intro allI impI)
    fix k assume k: "k < Suc (length ts)"
    show "allowed (fst (checkAll gv i e m l (t1 # ts) w) ! k) = (int k + 1 \<le> L)"
    proof (cases k)
      case 0
      then show ?thesis using s a st assms(3) by simp
    next
      case (Suc j)
      then have "j < length ts" using k by simp
      then have "allowed (rs ! j) = (1 + int j + 1 \<le> L)" using iw by simp
      then show ?thesis using Suc s a by (simp add: algebra_simps)
    qed
  qed
  have w2: "snd (checkAll gv i e m l (t1 # ts) w) = w2" using s a by simp
  have g2: "cacheGet w2 ?k = Some \<lparr>count = 1 + int (length ts), reset = t1 + 3600000\<rparr>"
    using iw by simp
  have l2: "actualLimit gv e l w2 = L"
    using iw l1 actualLimit_settings[of w2 w1 gv e l] by simp
  have c2: "\<forall>t'. t1 + 3600000 < t' \<longrightarrow>
            allowed (fst (checkRateLimit gv t' i e m l (snd (checkAll gv i e m l (t1 # ts) w))))
              = (1 \<le> L) \<and>
            cacheGet (snd (checkRateLimit gv t' i e m l (snd (checkAll gv i e m l (t1 # ts) w)))) ?k
              = Some \<lparr>count = 1, reset = t' + 3600000\<rparr>"
  proof (intro allI impI)
    fix t' assume t: "t1 + 3600000 < t'"
    obtain r' w3 where s': "checkRateLimit gv t' i e m l w2 = (r', w3)"
      by (cases "checkRateLimit gv t' i e m l w2")
    have wa': "windowAt t' ?k w2 = \<lparr>count = 0, reset = t' + 3600000\<rparr>"
      using g2 t by (simp add: windowAt_def)
    note st' = checkRateLimit_step[OF s', unfolded wa' l2]
    show "allowed (fst (checkRateLimit gv t' i e m l (snd (checkAll gv i e m l (t1 # ts) w))))
              = (1 \<le> L) \<and>
            cacheGet (snd (checkRateLimit gv t' i e m l (snd (checkAll gv i e m l (t1 # ts) w)))) ?k
              = Some \<lparr>count = 1, reset = t' + 3600000\<rparr>"
      unfolding w2 s' using st' by simp
  qed
  have c3: "\<forall>now w0. \<exists>u.
            cacheGet (snd (checkRateLimit gv now i e m l w0)) ?k = Some u \<and>
            allowed (fst (checkRateLimit gv now i e m l w0))
              = (count u \<le> limit (fst (checkRateLimit gv now i e m l w0)))"
  proof (intro allI)
    fix now w0
    obtain r0 w0' where s0: "checkRateLimit gv now i e m l w0 = (r0, w0')"
      by (cases "checkRateLimit gv now i e m l w0")
    from checkRateLimit_step[OF s0]
    show "\<exists>u. cacheGet (snd (checkRateLimit gv now i e m l w0)) ?k = Some u \<and>
            allowed (fst (checkRateLimit gv now i e m l w0))
              = (count u \<le> limit (fst (checkRateLimit gv now i e m l w0)))"
      unfolding s0 by simp
  qed
  show ?thesis by (intro conjI c1 c2 c3)
qed

theorem hourly_limit_window_witness:
  "cacheGet limitedWorld (cacheKey ''client'' ''/api/admin/posts'' ''GET'') = None \<and>
   t0 + 1000 \<le> t0 + 3600000 \<and> t0 + 2000 \<le> t0 + 3600000 \<and> t0 + 3000 \<le> t0 + 3600000 \<and>
   actualLimit calmGov ''/api/admin/posts'' 100 limitedWorld = 3 \<and>
   allowed (fst (checkAll calmGov ''client'' ''/api/admin/posts'' ''GET'' 100
                   [t0, t0 + 1000, t0 + 2000, t0 + 3000] limitedWorld) ! 0) \<and>
   allowed (fst (checkAll calmGov ''client'' ''/api/admin/posts'' ''GET'' 100
                   [t0, t0 + 1000, t0 + 2000, t0 + 3000] limitedWorld) ! 2) \<and>
   \<not> allowed (fst (checkAll calmGov ''client'' ''/api/admin/posts'' ''GET'' 100
                   [t0, t0 + 1000, t0 + 2000, t0 + 3000] limitedWorld) ! 3) \<and>
   t0 + 3600000 < t0 + 3600001 \<and>
   allowed (fst (checkRateLimit calmGov (t0 + 3600001) ''client'' ''/api/admin/posts'' ''GET'' 100
                   (snd (checkAll calmGov ''client'' ''/api/admin/posts'' ''GET'' 100
                           [t0, t0 + 1000, t0 + 2000, t0 + 3000] limitedWorld))))"
proof -
  let ?ts = "[t0 + 1000, t0 + 2000, t0 + 3000]"
  have h1: "cacheGet limitedWorld (cacheKey ''client'' ''/api/admin/posts'' ''GET'') = None"
    by (simp add: cacheGet_def limitedWorld_def world0_def)
  then have h1': "cacheGet limitedWorld (cacheKey ''client'' ''/api/admin/posts'' ''GET'') = None \<or>
           (\<exists>u. cacheGet limitedWorld (cacheKey ''client'' ''/api/admin/posts'' ''GET'') = Some u \<and>
                reset u < t0)"
    by simp
  have h2: "\<forall>t \<in> set ?ts. t \<le> t0 + 3600000" by simp
  have h3: "actualLimit calmGov ''/api/admin/posts'' 100 limitedWorld = 3"
    by (simp add: actualLimit_def getCustomRateLimit_def findSetting_def limitedWorld_def
          world0_def calmGov_def parseInt_examples)
  note t = hourly_limit_window[OF h1' h2 h3]
  from t have a: "\<forall>k < Suc (length ?ts).
      allowed (fst (checkAll calmGov ''client'' ''/api/admin/posts'' ''GET'' 100 (t0 # ?ts) limitedWorld) ! k)
        = (int k + 1 \<le> 3)"
    by blast
  have a0: "allowed (fst (checkAll calmGov ''client'' ''/api/admin/posts'' ''GET'' 100 (t0 # ?ts) limitedWorld) ! 0)"
    using a[rule_format, of 0] by simp
  have a2: "allowed (fst (checkAll calmGov ''client'' ''/api/admin/posts'' ''GET'' 100 (t0 # ?ts) limitedWorld) ! 2)"
    using a[rule_format, of 2] by simp
  have a3: "\<not> allowed (fst (checkAll calmGov ''client'' ''/api/admin/posts'' ''GET'' 100 (t0 # ?ts) limitedWorld) ! 3)"
    using a[rule_format, of 3] by simp
  from t have "\<forall>t'. t0 + 3600000 < t' \<longrightarrow>
      allowed (fst (checkRateLimit calmGov t' ''client'' ''/api/admin/posts'' ''GET'' 100
                 (snd (checkAll calmGov ''client'' ''/api/admin/posts'' ''GET'' 100 (t0 # ?ts) limitedWorld))))
        = (1 \<le> (3::int))"
    by blast
  then have b: "allowed (fst (checkRateLimit calmGov (t0 + 3600001) ''client'' ''/api/admin/posts'' ''GET'' 100
                 (snd (checkAll calmGov ''client'' ''/api/admin/posts'' ''GET'' 100 (t0 # ?ts) limitedWorld))))"
    by simp
  show ?thesis using h1 h3 a0 a2 a3 b by simp
qed

section \<open>Claim C5: the daily token budget\<close>

definition createdBy :: "world \<Rightarrow> world \<Rightarrow> notification list" where
  "createdBy w w' = drop (length (notifications w)) (notifications w')"

definition usageWarnings :: "notification list \<Rightarrow> notification list" where
  "usageWarnings ns = filter (\<lambda>n. title n = tokenWarningTitle) ns"

lemma titles_differ: "tokenLimitTitle \<noteq> tokenWarningTitle"
  by (simp add: tokenLimitTitle_def tokenWarningTitle_def)

lemmas more_governance_inputs =
  limitedWorld_def budgetWorld_def spentWorld_def usedUpWorld_def noLedgerGov_def downGov_def
  clientKey_def brokenKey_def responseStatus_def

lemma startOfToday_t0: "startOfToday (fixedZone 32400000) 1700040000000 = 1699974000000"
  by (simp add: startOfToday_def UTC_def MakeDate_def Day_def LocalTime_def msPerDay_def
        utcOffset_fixedZone localOffset_fixedZone)

subsection \<open>Rounding to a Number\<close>

lemma bitLength_bounds: "0 < n \<Longrightarrow> 2 ^ (bitLength n - 1) \<le> n \<and> n < 2 ^ bitLength n"
proof (induction n rule: bitLength.induct)
  case (1 n)
  show ?case
  proof (cases "n div 2 = 0")
    case True
    then have "n = Suc 0" using 1(2) by linarith
    moreover have "bitLength (Suc 0) = Suc 0"
      by (simp add: bitLength.simps[of "Suc 0"] bitLength.simps[of 0])
    ultimately show ?thesis by simp
  next
    case False
    then have p: "0 < n div 2" by simp
    from 1(1)[OF _ p] 1(2)
    have ih: "2 ^ (bitLength (n div 2) - 1) \<le> n div 2" "n div 2 < 2 ^ bitLength (n div 2)"
      by simp_all
    have b: "bitLength n = Suc (bitLength (n div 2))"
      using 1(2) by (simp add: bitLength.simps[of n])
    have pos: "0 < bitLength (n div 2)"
      using p by (simp add: bitLength.simps[of "n div 2"])
    then have e: "2 ^ (bitLength n - 1) = 2 * (2::nat) ^ (bitLength (n div 2) - 1)"
      unfolding b by (cases "bitLength (n div 2)") simp_all
    have "2 * (n div 2) \<le> n" "n < 2 * (n div 2) + 2" by linarith+
    then show ?thesis unfolding e using ih unfolding b by simp
  qed
qed

lemma pow2_pos: "0 < pow2 e"
  by (simp add: pow2_def)

lemma binade_bounds:
  assumes "1 \<le> \<bar>q\<bar>"
  shows "0 \<le> binade q" and "pow2 (binade q) \<le> \<bar>q\<bar>" and "\<bar>q\<bar> < pow2 (binade q + 1)"
proof -
  define n where "n = nat \<lfloor>\<bar>q\<bar>\<rfloor>"
  have n: "0 < n" using assms by (simp add: n_def)
  have fl: "of_nat n \<le> \<bar>q\<bar>" "\<bar>q\<bar> < of_nat n + 1"
    unfolding n_def using assms by (simp_all add: floor_le_iff) linarith+
  note b = bitLength_bounds[OF n]
  have L: "0 < bitLength n" using n by (simp add: bitLength.simps[of n])
  have e: "binade q = int (bitLength n) - 1"
    using assms by (simp add: binade_def n_def)
  show "0 \<le> binade q" using L unfolding e by simp
  have p1: "pow2 (binade q) = 2 ^ (bitLength n - 1)"
    unfolding e pow2_def using L by (simp add: nat_diff_distrib')
  have p2: "pow2 (binade q + 1) = 2 ^ bitLength n"
    unfolding e pow2_def by simp
  have "(2::rat) ^ (bitLength n - 1) = of_nat (2 ^ (bitLength n - 1))" by simp
  also have "\<dots> \<le> of_nat n" using b by (simp only: of_nat_le_iff)
  finally show "pow2 (binade q) \<le> \<bar>q\<bar>" unfolding p1 using fl by linarith
  have "of_nat n + (1::rat) = of_nat (n + 1)" by simp
  also have "\<dots> \<le> of_nat (2 ^ bitLength n)" using b by (simp only: of_nat_le_iff) simp
  finally show "\<bar>q\<bar> < pow2 (binade q + 1)" unfolding p2 using fl by simp
qed

lemma binade_less:
  assumes "1 \<le> \<bar>q\<bar>" and "\<bar>q\<bar> < 2 ^ N"
  shows "binade q < int N"
proof -
  note b = binade_bounds[OF assms(1)]
  have "(2::rat) ^ nat (binade q) \<le> \<bar>q\<bar>" using b(1,2) by (simp add: pow2_def)
  then have "(2::rat) ^ nat (binade q) < 2 ^ N" using assms(2) by linarith
  then have "nat (binade q) < N" by (simp add: power_strict_increasing_iff)
  then show ?thesis using b(1) by linarith
qed

lemma roundHalfEven_int: "roundHalfEven (of_int m) = m"
  by (simp add: roundHalfEven_def)

lemma roundHalfEven_near:
  assumes "of_int m \<le> x" and "x < of_int m + 1 / 2"
  shows "roundHalfEven x = m"
proof -
  have "\<lfloor>x\<rfloor> = m" using assms by (simp add: floor_eq_iff) 
  then show ?thesis using assms by (simp add: roundHalfEven_def)
qed

lemma roundHalfEven_error: "\<bar>of_int (roundHalfEven x) - x\<bar> \<le> 1 / 2"
proof -
  have "of_int \<lfloor>x\<rfloor> \<le> x" "x < of_int \<lfloor>x\<rfloor> + 1" by linarith+
  then show ?thesis by (auto simp: roundHalfEven_def Let_def)
qed

lemma roundDouble_error:
  "q \<noteq> 0 \<Longrightarrow> \<bar>roundDouble q - q\<bar> \<le> pow2 (binade q - 52) / 2"
proof -
  assume q: "q \<noteq> 0"
  define u where "u = pow2 (binade q - 52)"
  have u: "0 < u" by (simp add: u_def pow2_pos)
  have "roundDouble q - q = (of_int (roundHalfEven (q / u)) - q / u) * u"
    using q u by (simp add: roundDouble_def u_def Let_def algebra_simps)
  then have "\<bar>roundDouble q - q\<bar> = \<bar>of_int (roundHalfEven (q / u)) - q / u\<bar> * u"
    using u by (simp add: abs_mult)
  also have "\<dots> \<le> (1 / 2) * u"
    using roundHalfEven_error[of "q / u"] u by (intro mult_right_mono) simp_all
  finally show ?thesis by (simp add: u_def)
qed

lemma roundDouble_int:
  assumes "\<bar>k\<bar> < 2 ^ 53"
  shows "roundDouble (of_int k) = of_int k"
proof (cases "k = 0")
  case True
  then show ?thesis by (simp add: roundDouble_def)
next
  case False
  define q :: rat where "q = of_int k"
  have q0: "q \<noteq> 0" using False by (simp add: q_def)
  have "1 \<le> \<bar>k\<bar>" using False by linarith
  then have "(of_int 1 :: rat) \<le> of_int \<bar>k\<bar>" by (simp only: of_int_le_iff)
  then have a: "1 \<le> \<bar>q\<bar>" by (simp add: q_def)
  have "(of_int \<bar>k\<bar> :: rat) < of_int (2 ^ 53)" using assms by (simp only: of_int_less_iff)
  then have "\<bar>q\<bar> < 2 ^ 53" by (simp add: q_def)
  from binade_less[OF a this] binade_bounds(1)[OF a]
  have e: "0 \<le> binade q" "binade q < 53" by simp_all
  define j where "j = nat (52 - binade q)"
  have u: "pow2 (binade q - 52) = 1 / 2 ^ j"
  proof (cases "binade q = 52")
    case True
    then show ?thesis by (simp add: pow2_def j_def)
  next
    case False
    then have "binade q - 52 < 0" using e by simp
    moreover have "nat (- (binade q - 52)) = j" by (simp add: j_def)
    ultimately show ?thesis by (simp add: pow2_def)
  qed
  have d: "q / (1 / 2 ^ j) = of_int (k * 2 ^ j)"
    by (simp add: q_def)
  have "roundDouble q = of_int (roundHalfEven (q / (1 / 2 ^ j))) * (1 / 2 ^ j)"
    using q0 by (simp add: roundDouble_def Let_def u)
  also have "\<dots> = of_int (k * 2 ^ j) * (1 / 2 ^ j)"
    unfolding d roundHalfEven_int ..
  also have "\<dots> = q" by (simp add: q_def)
  finally show ?thesis by (simp add: q_def)
qed

lemma binade_eq:
  assumes "2 ^ N \<le> \<bar>q\<bar>" and "\<bar>q\<bar> < 2 ^ Suc N"
  shows "binade q = int N"
proof -
  have "(1::rat) \<le> 2 ^ N" by simp
  then have a: "1 \<le> \<bar>q\<bar>" using assms(1) by linarith
  note b = binade_bounds[OF a]
  have "binade q < int (Suc N)" by (rule binade_less[OF a assms(2)])
  moreover have "int N \<le> binade q"
  proof (rule ccontr)
    assume "\<not> int N \<le> binade q"
    then have "binade q + 1 \<le> int N" by simp
    then have "nat (binade q + 1) \<le> N" by simp
    then have "(2::rat) ^ nat (binade q + 1) \<le> 2 ^ N" by (simp add: power_increasing)
    moreover have "pow2 (binade q + 1) = 2 ^ nat (binade q + 1)"
      using b(1) by (simp add: pow2_def)
    ultimately show False using b(3) assms(1) by linarith
  qed
  ultimately show ?thesis by simp
qed

lemma roundHalfEven_tie:
  assumes "x = of_int m + 1 / 2" and "even m"
  shows "roundHalfEven x = m"
proof -
  have "\<lfloor>x\<rfloor> = m" unfolding assms(1) by (simp add: floor_eq_iff)
  then show ?thesis using assms by (simp add: roundHalfEven_def)
qed

lemma roundDouble_at:
  assumes "q \<noteq> 0" and "binade q = e" and "pow2 (e - 52) = u" and "roundHalfEven (q / u) = m"
  shows "roundDouble q = of_int m * u"
  using assms by (simp add: roundDouble_def Let_def)

lemma roundDouble_2_53:
  "roundDouble 9007199254740992 = 9007199254740992"
  "roundDouble (- 9007199254740992) = - 9007199254740992"
  "roundDouble 9007199254740993 = 9007199254740992"
proof -
  have b: "binade 9007199254740992 = 53" "binade (- 9007199254740992) = 53"
    "binade 9007199254740993 = 53"
    using binade_eq[of 53 9007199254740992] binade_eq[of 53 "- 9007199254740992"]
      binade_eq[of 53 9007199254740993]
    by simp_all
  have p: "pow2 (53 - 52) = 2" by (simp add: pow2_def)
  have h1: "roundHalfEven (9007199254740992 / 2) = 4503599627370496"
    using roundHalfEven_int[of 4503599627370496] by simp
  have h2: "roundHalfEven (- 9007199254740992 / 2) = - 4503599627370496"
    using roundHalfEven_int[of "- 4503599627370496"] by simp
  have h3: "roundHalfEven (9007199254740993 / 2) = 4503599627370496"
    by (rule roundHalfEven_tie) simp_all
  show "roundDouble 9007199254740992 = 9007199254740992"
    using roundDouble_at[OF _ b(1) p h1] by simp
  show "roundDouble (- 9007199254740992) = - 9007199254740992"
    using roundDouble_at[OF _ b(2) p h2] by simp
  show "roundDouble 9007199254740993 = 9007199254740992"
    using roundDouble_at[OF _ b(3) p h3] by simp
qed

lemma roundDouble_exact:
  assumes "\<bar>k\<bar> \<le> 2 ^ 53"
  shows "roundDouble (of_int k) = of_int k"
proof -
  consider "\<bar>k\<bar> < 2 ^ 53" | "k = 9007199254740992" | "k = - 9007199254740992"
    using assms by fastforce
  then show ?thesis
  proof cases
    case 1 then show ?thesis by (rule roundDouble_int)
  next
    case 2 then show ?thesis by (simp add: roundDouble_2_53)
  next
    case 3 then show ?thesis by (simp add: roundDouble_2_53)
  qed
qed

lemma binade_half:
  assumes "1 / 2 \<le> \<bar>q\<bar>" and "\<bar>q\<bar> < 1"
  shows "binade q = - 1"
proof -
  have p: "0 < \<bar>q\<bar>" using assms(1) by linarith
  have "1 < 1 / \<bar>q\<bar>" using assms(2) p by (simp add: field_simps)
  moreover have "1 / \<bar>q\<bar> \<le> 2" using assms(1) p by (simp add: field_simps)
  ultimately have "\<lceil>1 / \<bar>q\<bar>\<rceil> = 2" by (simp add: ceiling_eq_iff)
  moreover have "bitLength (Suc 0) = Suc 0"
    by (simp add: bitLength.simps[of "Suc 0"] bitLength.simps[of 0])
  ultimately show ?thesis using assms(2) by (simp add: binade_def)
qed

lemma roundDouble_pointEight: "roundDouble pointEight = pointEight"
proof -
  have b: "binade pointEight = - 1"
    by (rule binade_half) (simp_all add: pointEight_def)
  have p: "pow2 (- 1 - 52) = 1 / 2 ^ 53" by (simp add: pow2_def)
  have d: "pointEight / (1 / 2 ^ 53) = of_int 7205759403792794"
    by (simp add: pointEight_def)
  have h: "roundHalfEven (pointEight / (1 / 2 ^ 53)) = 7205759403792794"
    unfolding d by (rule roundHalfEven_int)
  have "pointEight \<noteq> 0" by (simp add: pointEight_def)
  from roundDouble_at[OF this b p h] show ?thesis by (simp add: pointEight_def)
qed

lemma pointEight_times: "5 * pointEight = 4 + 1 / 2 ^ 52"
  by (simp add: pointEight_def)

text \<open>
  For a budget up to \<open>2^50\<close> the product with \<open>0.8\<close> is four fifths of the budget when
  that is an integer, and lies strictly between the integers around it otherwise.
\<close>

lemma threshold_cases:
  assumes "0 \<le> B" and "B \<le> 2 ^ 50"
  shows "(4 * B) mod 5 = 0 \<and> roundDouble (of_int B * pointEight) = of_int ((4 * B) div 5) \<or>
         (4 * B) mod 5 \<noteq> 0 \<and> of_int ((4 * B) div 5) < roundDouble (of_int B * pointEight) \<and>
           roundDouble (of_int B * pointEight) < of_int ((4 * B) div 5) + 1"
proof -
  define n where "n = (4 * B) div 5"
  define f where "f = (4 * B) mod 5"
  define q :: rat where "q = of_int B * pointEight"
  have nf: "4 * B = 5 * n + f" "0 \<le> f" "f < 5" by (simp_all add: n_def f_def)
  have n0: "0 \<le> n" using assms(1) nf by linarith
  have "5 * q = of_int B * (5 * pointEight)" by (simp add: q_def)
  also have "\<dots> = of_int (4 * B) + of_int B / 2 ^ 52"
    unfolding pointEight_times by (simp add: algebra_simps)
  finally have q5: "5 * q = of_int (5 * n + f) + of_int B / 2 ^ 52" unfolding nf(1) .
  have Bq: "(of_int B :: rat) \<le> 2 ^ 50"
  proof -
    have "(of_int B :: rat) \<le> of_int (2 ^ 50)" using assms(2) by (simp only: of_int_le_iff)
    then show ?thesis by simp
  qed
  have B0: "(0::rat) \<le> of_int B" using assms(1) by simp
  have qn: "q = of_int n + of_int f / 5 + of_int B / (5 * 2 ^ 52)"
    using q5 by (simp add: field_simps)
  consider "B = 0" | "B = 1" | "2 \<le> B" using assms(1) by linarith
  then have "f = 0 \<and> roundDouble q = of_int n \<or>
             f \<noteq> 0 \<and> of_int n < roundDouble q \<and> roundDouble q < of_int n + 1"
  proof cases
    case 1
    then show ?thesis by (simp add: q_def f_def n_def roundDouble_def)
  next
    case 2
    then have "q = pointEight" "f = 4" "n = 0" by (simp_all add: q_def f_def n_def)
    then show ?thesis by (simp add: roundDouble_pointEight) (simp add: pointEight_def)
  next
    case 3
    then have "(2::rat) \<le> of_int B" by simp
    then have q1: "1 \<le> q" unfolding q_def pointEight_def by (simp add: field_simps)
    have q2: "q < 2 ^ 50" using Bq unfolding q_def pointEight_def by (simp add: field_simps)
    have aq: "\<bar>q\<bar> = q" using q1 by simp
    have a1: "1 \<le> \<bar>q\<bar>" using q1 by simp
    note b = binade_bounds[OF a1]
    have e50: "binade q < 50" using binade_less[OF a1, of 50] q2 aq by simp
    define j where "j = nat (52 - binade q)"
    have j: "3 \<le> j" "int j = 52 - binade q" using e50 b(1) by (simp_all add: j_def)
    have u: "pow2 (binade q - 52) = 1 / 2 ^ j"
    proof -
      have "binade q - 52 < 0" using e50 by simp
      moreover have "nat (- (binade q - 52)) = j" by (simp add: j_def)
      ultimately show ?thesis by (simp add: pow2_def)
    qed
    have u8: "(1::rat) / 2 ^ j \<le> 1 / 8"
    proof -
      have "(2::rat) ^ 3 \<le> 2 ^ j" using j(1) by (intro power_increasing) simp_all
      then show ?thesis by (simp add: field_simps)
    qed
    have q0: "q \<noteq> 0" using q1 by simp
    show ?thesis
    proof (cases "f = 0")
      case True
      then have B5: "(of_int B :: rat) = 5 * of_int n / 4"
      proof -
        have "(of_int (4 * B) :: rat) = of_int (5 * n)" using nf(1) True by simp
        then show ?thesis by simp
      qed
      have qn': "q = of_int n + of_int n / 2 ^ 54"
        unfolding qn B5 using True by simp
      have up: "q < 2 * 2 ^ nat (binade q)"
        using b(3) b(1) aq by (simp add: pow2_def nat_add_distrib)
      have e52: "(2::rat) ^ nat (binade q) * 2 ^ j = 2 ^ 52"
      proof -
        have "nat (binade q) + j = 52" using j(2) b(1) by simp
        then have "(2::rat) ^ (nat (binade q) + j) = 2 ^ 52" by simp
        then show ?thesis by (simp only: power_add)
      qed
      define M where "M = n * 2 ^ j"
      have d: "q / (1 / 2 ^ j) = of_int M + of_int n * 2 ^ j / 2 ^ 54"
        unfolding qn' M_def by (simp add: field_simps)
      have nle: "(of_int n :: rat) \<le> q" unfolding qn' using n0 by simp
      have "of_int n * 2 ^ j < 2 * 2 ^ nat (binade q) * (2::rat) ^ j"
        using nle up by (simp add: mult_strict_right_mono)
      also have "\<dots> = 2 * (2 ^ nat (binade q) * 2 ^ j)" by (simp only: mult.assoc)
      also have "\<dots> = 2 ^ 53" unfolding e52 by simp
      finally have "of_int n * 2 ^ j / 2 ^ 54 < (1::rat) / 2" by (simp add: field_simps)
      moreover have "(0::rat) \<le> of_int n * 2 ^ j / 2 ^ 54" using n0 by simp
      ultimately have "roundHalfEven (q / (1 / 2 ^ j)) = M"
        unfolding d by (intro roundHalfEven_near) simp_all
      from roundDouble_at[OF q0 refl u this]
      have "roundDouble q = of_int n" by (simp add: M_def)
      then show ?thesis using True by simp
    next
      case False
      then have f1: "1 \<le> f" "f \<le> 4" using nf by simp_all
      then have "(of_int 1 :: rat) \<le> of_int f" "(of_int f :: rat) \<le> of_int 4"
        by (simp_all only: of_int_le_iff)
      then have fr: "(1::rat) \<le> of_int f" "(of_int f :: rat) \<le> 4"
        by simp_all
      define v :: rat where "v = 1 / 2 ^ j"
      have "\<bar>roundDouble q - q\<bar> \<le> v / 2"
        using roundDouble_error[OF q0] unfolding u v_def .
      moreover have "v \<le> 1 / 8" using u8 by (simp only: v_def)
      ultimately have e: "\<bar>roundDouble q - q\<bar> \<le> 1 / 16"
        by linarith
      have lo: "of_int n + 1 / 5 \<le> q" unfolding qn using fr(1) B0 by (simp add: field_simps)
      have "of_int B / (5 * 2 ^ 52) \<le> (1::rat) / 20" using Bq by (simp add: field_simps)
      then have hi: "q \<le> of_int n + 4 / 5 + 1 / 20" unfolding qn using fr(2) by (simp add: field_simps)
      have "of_int n < roundDouble q" "roundDouble q < of_int n + 1"
        using e lo hi by linarith+
      then show ?thesis using False by simp
    qed
  qed
  then show ?thesis by (simp add: n_def f_def q_def)
qed

lemma eighty_percent:
  assumes "0 \<le> B" and "B \<le> 2 ^ 50"
  shows "(of_int S < roundDouble (of_int B * pointEight)) = (5 * S < 4 * B)"
    and "(roundDouble (of_int B * pointEight) \<le> of_int T) = (4 * B \<le> 5 * T)"
    and "\<lfloor>roundDouble (of_int B * pointEight)\<rfloor> = (4 * B) div 5"
proof -
  define n where "n = (4 * B) div 5"
  define f where "f = (4 * B) mod 5"
  define thr where "thr = roundDouble (of_int B * pointEight)"
  have nf: "4 * B = 5 * n + f" "0 \<le> f" "f < 5" by (simp_all add: n_def f_def)
  from threshold_cases[OF assms]
  have c: "f = 0 \<and> thr = of_int n \<or> f \<noteq> 0 \<and> of_int n < thr \<and> thr < of_int n + 1"
    by (simp add: n_def f_def thr_def)
  have less: "(of_int a < thr) = (a \<le> n)" if "f \<noteq> 0" for a
  proof
    assume "of_int a < thr"
    then have "(of_int a :: rat) < of_int (n + 1)" using c that by simp
    then have "a < n + 1" by (simp only: of_int_less_iff)
    then show "a \<le> n" by simp
  next
    assume "a \<le> n"
    then have "(of_int a :: rat) \<le> of_int n" by (simp only: of_int_le_iff)
    then show "of_int a < thr" using c that by simp
  qed
  have 1: "(of_int S < thr) = (5 * S < 4 * B)"
  proof (cases "f = 0")
    case True
    then have "thr = of_int n" using c by simp
    then have "(of_int S < thr) = (S < n)" by (simp only: of_int_less_iff)
    then show ?thesis using nf True by simp
  next
    case False
    then show ?thesis using less[OF False, of S] nf False by auto
  qed
  have 2: "(thr \<le> of_int T) = (4 * B \<le> 5 * T)"
  proof (cases "f = 0")
    case True
    then have "thr = of_int n" using c by simp
    then have "(thr \<le> of_int T) = (n \<le> T)" by (simp only: of_int_le_iff)
    then show ?thesis using nf True by simp
  next
    case False
    have "(thr \<le> of_int T) = (\<not> of_int T < thr)" by auto
    then show ?thesis using less[OF False, of T] nf False by auto
  qed
  have 3: "\<lfloor>thr\<rfloor> = n"
  proof (cases "f = 0")
    case True
    then show ?thesis using c by simp
  next
    case False
    then show ?thesis using c by (simp add: floor_eq_iff)
  qed
  show "(of_int S < roundDouble (of_int B * pointEight)) = (5 * S < 4 * B)"
    and "(roundDouble (of_int B * pointEight) \<le> of_int T) = (4 * B \<le> 5 * T)"
    and "\<lfloor>roundDouble (of_int B * pointEight)\<rfloor> = (4 * B) div 5"
    using 1 2 3 by (simp_all add: thr_def n_def)
qed

subsection \<open>The check on exact token counts\<close>

text \<open>
  With a budget from 0 to \<open>2^50\<close> and token counts up to \<open>2^53\<close> in magnitude no
  operation of the check rounds, and the 80% test is the comparison of integers.
\<close>

lemma notification_titles:
  "title (tokenLimitNotification uid n now) = tokenLimitTitle"
  "title (tokenWarningNotification uid n now) = tokenWarningTitle"
  by (simp_all add: tokenLimitNotification_def tokenWarningNotification_def)

lemma trackTokenUsage_exact:
  assumes "settingsFindUnique gv = None"
      and "generationAggregate gv = None"
      and "notificationCreate gv = None"
      and "maxTokensPerDay w = Num B"
      and "todayUsage gv now uid w = S"
      and B: "0 \<le> B" "B \<le> 2 ^ 50"
      and S: "\<bar>S\<bar> \<le> 2 ^ 53" "\<bar>S + t\<bar> \<le> 2 ^ 53"
  shows "trackTokenUsage gv now uid t w =
           (if B < S + t
            then (False, w\<lparr>notifications := notifications w @ [tokenLimitNotification uid B now]\<rparr>)
            else if 5 * S < 4 * B \<and> 4 * B \<le> 5 * (S + t)
            then (True, w\<lparr>notifications := notifications w @
                             [tokenWarningNotification uid ((4 * B) div 5) now]\<rparr>)
            else (True, w))"
proof -
  have cu: "roundDouble (of_int S) = of_int S" using S(1) by (rule roundDouble_exact)
  have "roundDouble (of_int (S + t)) = of_int (S + t)" using S(2) by (rule roundDouble_exact)
  then have nt: "roundDouble (of_int S + of_int t) = of_int (S + t)" by simp
  have "\<bar>B\<bar> \<le> 2 ^ 53" using B by simp
  then have bu: "roundDouble (of_int B) = of_int B" by (rule roundDouble_exact)
  have c1: "((of_int B :: rat) < of_int (S + t)) = (B < S + t)" by (simp only: of_int_less_iff)
  note c2 = eighty_percent(1)[OF B, of S]
  note c3 = eighty_percent(2)[OF B, of "S + t"]
  note f2 = eighty_percent(3)[OF B]
  have f1: "\<lfloor>of_int B :: rat\<rfloor> = B" by simp
  show ?thesis
    unfolding trackTokenUsage_def Let_def assms(1-5) option.case num.case cu nt bu c1 c2 c3 f1 f2
    by simp
qed

lemma spent_today:
  "maxTokensPerDay budgetWorld = Num 100" "maxTokensPerDay spentWorld = Num 100"
  "todayUsage calmGov t0 ''u1'' budgetWorld = 0"
  "todayUsage calmGov t0 ''u1'' spentWorld = 70"
  "maxTokensPerDay hugeBudgetWorld = Num 9007199254740992"
  "todayUsage calmGov t0 ''u1'' hugeBudgetWorld = 1"
  by (simp_all add: maxTokensPerDay_def findSetting_def todayUsage_def spentWorld_def
        budgetWorld_def hugeBudgetWorld_def world0_def calmGov_def t0_def startOfToday_t0
        parseInt_def isWhite_def radixDigits_def digitOf_def Let_def)

text \<open>
  As stated, claim C5 fails in both halves. A call that would exceed the budget is denied
  before the 80% test is reached: with nothing spent, a budget of 100 and an estimate of
  101, spend would cross 80% but the only notification created is the limit one. The
  check records no spend, so two successive allowed checks that see the same 70 tokens
  spent both create the warning. And the sum is a rounded sum of Numbers: with one token
  spent, a budget of \<open>2^53\<close> and an estimate of \<open>2^53\<close>, the sum exceeds the budget
  but the call is allowed, with the warning.
\<close>

theorem warning_not_exactly_once:
  "maxTokensPerDay budgetWorld = Num 100 \<and>
   todayUsage calmGov t0 ''u1'' budgetWorld = 0 \<and>
   5 * 0 < 4 * (100::int) \<and> 4 * 100 \<le> 5 * (0 + (101::int)) \<and>
   \<not> fst (trackTokenUsage calmGov t0 ''u1'' 101 budgetWorld) \<and>
   map title (notifications (snd (trackTokenUsage calmGov t0 ''u1'' 101 budgetWorld)))
     = [tokenLimitTitle] \<and>
   tokenLimitTitle \<noteq> tokenWarningTitle \<and>
   todayUsage calmGov t0 ''u1'' spentWorld = 70 \<and>
   fst (trackTokenUsage calmGov t0 ''u1'' 15 spentWorld) \<and>
   fst (trackTokenUsage calmGov t0 ''u1'' 15 (snd (trackTokenUsage calmGov t0 ''u1'' 15 spentWorld))) \<and>
   map title (notifications
     (snd (trackTokenUsage calmGov t0 ''u1'' 15 (snd (trackTokenUsage calmGov t0 ''u1'' 15 spentWorld)))))
     = [tokenWarningTitle, tokenWarningTitle] \<and>
   maxTokensPerDay hugeBudgetWorld = Num 9007199254740992 \<and>
   todayUsage calmGov t0 ''u1'' hugeBudgetWorld = 1 \<and>
   \<not> 1 + 9007199254740992 \<le> (9007199254740992 :: int) \<and>
   fst (trackTokenUsage calmGov t0 ''u1'' 9007199254740992 hugeBudgetWorld) \<and>
   map title (createdBy hugeBudgetWorld
     (snd (trackTokenUsage calmGov t0 ''u1'' 9007199254740992 hugeBudgetWorld)))
     = [tokenWarningTitle]"
proof -
  have g: "settingsFindUnique calmGov = None" "generationAggregate calmGov = None"
    "notificationCreate calmGov = None"
    by (simp_all add: calmGov_def)
  have n0: "notifications budgetWorld = []" "notifications spentWorld = []"
    by (simp_all add: spentWorld_def budgetWorld_def world0_def)
  have a: "trackTokenUsage calmGov t0 ''u1'' 101 budgetWorld =
      (False, budgetWorld\<lparr>notifications := [tokenLimitNotification ''u1'' 100 t0]\<rparr>)"
    using trackTokenUsage_exact[OF g spent_today(1) spent_today(3), of 101] n0 by simp
  let ?warn = "tokenWarningNotification ''u1'' 80 t0"
  let ?w1 = "spentWorld\<lparr>notifications := [?warn]\<rparr>"
  have b: "trackTokenUsage calmGov t0 ''u1'' 15 spentWorld = (True, ?w1)"
    using trackTokenUsage_exact[OF g spent_today(2) spent_today(4), of 15] n0 by simp
  have m2: "maxTokensPerDay ?w1 = Num 100"
    using spent_today(2) by (simp add: maxTokensPerDay_def findSetting_def)
  have u2: "todayUsage calmGov t0 ''u1'' ?w1 = 70"
    using spent_today(4) by (simp add: todayUsage_def)
  have c: "trackTokenUsage calmGov t0 ''u1'' 15 ?w1 =
      (True, spentWorld\<lparr>notifications := [?warn, ?warn]\<rparr>)"
    using trackTokenUsage_exact[OF g m2 u2, of 15] by simp
  have r1: "roundDouble (of_int 1) = of_int 1"
    by (rule roundDouble_exact) simp
  have r2: "roundDouble (of_int 1 + of_int 9007199254740992) = 9007199254740992"
    using roundDouble_2_53(3) by simp
  have r3: "roundDouble (of_int 9007199254740992) = of_int 9007199254740992"
    by (rule roundDouble_exact) simp
  have e: "(of_int 9007199254740992 :: rat) * pointEight = of_int 7205759403792794"
    by (simp add: pointEight_def)
  have r4: "roundDouble (of_int 9007199254740992 * pointEight) = of_int 7205759403792794"
    unfolding e by (rule roundDouble_exact) simp
  have d: "trackTokenUsage calmGov t0 ''u1'' 9007199254740992 hugeBudgetWorld =
      (True, hugeBudgetWorld\<lparr>notifications := notifications hugeBudgetWorld @
         [tokenWarningNotification ''u1'' 7205759403792794 t0]\<rparr>)"
    unfolding trackTokenUsage_def Let_def g spent_today(5,6) option.case num.case r1 r2 r3 r4
    by simp
  show ?thesis
    using spent_today titles_differ
    by (simp add: a b c d notification_titles createdBy_def)
qed

text \<open>
  Claim C5, amended. When no lookup or write of the check raises, for a budget \<open>B\<close> from
  0 to \<open>2^50\<close>, today's recorded spend \<open>S\<close> and an estimate \<open>t\<close> with \<open>S\<close> and
  \<open>S + t\<close> at most \<open>2^53\<close> in magnitude, the token-budget check returns allowed
  exactly when \<open>S + t \<le> B\<close> (spending exactly the budget is allowed, one more is
  denied). The notifications it creates are: the limit notification, alone, when the
  call is denied; the warning notification, alone, when the call is allowed and
  \<open>S < 0.8 B \<le> S + t\<close>; none otherwise. The check changes nothing else in the store:
  it records no spend, so the spend a later check sees is the same. Once the recorded
  spend has reached 80% of the budget (as it has when a crossing call's estimate was
  recorded), no later call creates the warning.
\<close>

theorem token_budget_check:
  assumes "settingsFindUnique gv = None"
      and "generationAggregate gv = None"
      and "notificationCreate gv = None"
      and "maxTokensPerDay w = Num B"
      and "todayUsage gv now uid w = S"
      and "0 \<le> B" and "B \<le> 2 ^ 50"
      and "\<bar>S\<bar> \<le> 2 ^ 53" and "\<bar>S + t\<bar> \<le> 2 ^ 53"
  shows "fst (trackTokenUsage gv now uid t w) = (S + t \<le> B) \<and>
         createdBy w (snd (trackTokenUsage gv now uid t w))
           = (if B < S + t then [tokenLimitNotification uid B now]
              else if 5 * S < 4 * B \<and> 4 * B \<le> 5 * (S + t)
              then [tokenWarningNotification uid ((4 * B) div 5) now]
              else []) \<and>
         length (usageWarnings (createdBy w (snd (trackTokenUsage gv now uid t w))))
           = (if S + t \<le> B \<and> 5 * S < 4 * B \<and> 4 * B \<le> 5 * (S + t) then 1 else 0) \<and>
         snd (trackTokenUsage gv now uid t w)
           = w\<lparr>notifications :=
                 notifications w @ createdBy w (snd (trackTokenUsage gv now uid t w))\<rparr> \<and>
         aIGenerations (snd (trackTokenUsage gv now uid t w)) = aIGenerations w \<and>
         todayUsage gv now uid (snd (trackTokenUsage gv now uid t w)) = S \<and>
         (\<forall>w2 now2 t2.
            maxTokensPerDay w2 = Num B \<and> \<bar>todayUsage gv now2 uid w2\<bar> \<le> 2 ^ 53 \<and>
            4 * B \<le> 5 * todayUsage gv now2 uid w2 \<longrightarrow>
            usageWarnings (createdBy w2 (snd (trackTokenUsage gv now2 uid t2 w2))) = [])"
proof -
  note e = trackTokenUsage_exact[OF assms]
  have c1: "fst (trackTokenUsage gv now uid t w) = (S + t \<le> B)"
    unfolding e by auto
  have c2: "createdBy w (snd (trackTokenUsage gv now uid t w))
           = (if B < S + t then [tokenLimitNotification uid B now]
              else if 5 * S < 4 * B \<and> 4 * B \<le> 5 * (S + t)
              then [tokenWarningNotification uid ((4 * B) div 5) now]
              else [])"
    unfolding e by (simp add: createdBy_def)
  have c3: "length (usageWarnings (createdBy w (snd (trackTokenUsage gv now uid t w))))
           = (if S + t \<le> B \<and> 5 * S < 4 * B \<and> 4 * B \<le> 5 * (S + t) then 1 else 0)"
    unfolding c2 using titles_differ
    by (auto simp: usageWarnings_def notification_titles)
  have c4: "snd (trackTokenUsage gv now uid t w)
           = w\<lparr>notifications :=
                 notifications w @ createdBy w (snd (trackTokenUsage gv now uid t w))\<rparr>"
    unfolding c2 unfolding e by simp
  have c5: "aIGenerations (snd (trackTokenUsage gv now uid t w)) = aIGenerations w"
    unfolding e by simp
  have c6: "todayUsage gv now uid (snd (trackTokenUsage gv now uid t w)) = S"
    using c5 assms(5) by (simp add: todayUsage_def)
  have c7: "\<forall>w2 now2 t2.
            maxTokensPerDay w2 = Num B \<and> \<bar>todayUsage gv now2 uid w2\<bar> \<le> 2 ^ 53 \<and>
            4 * B \<le> 5 * todayUsage gv now2 uid w2 \<longrightarrow>
            usageWarnings (createdBy w2 (snd (trackTokenUsage gv now2 uid t2 w2))) = []"
  proof (intro allI impI)
    fix w2 now2 t2
    assume a: "maxTokensPerDay w2 = Num B \<and> \<bar>todayUsage gv now2 uid w2\<bar> \<le> 2 ^ 53 \<and>
               4 * B \<le> 5 * todayUsage gv now2 uid w2"
    then have m: "maxTokensPerDay w2 = Num B" by simp
    have cu: "roundDouble (of_int (todayUsage gv now2 uid w2)) = of_int (todayUsage gv now2 uid w2)"
      using a by (intro roundDouble_exact) simp
    have "\<bar>B\<bar> \<le> 2 ^ 53" using assms(6,7) by simp
    then have bu: "roundDouble (of_int B) = of_int B" by (rule roundDouble_exact)
    have n: "\<not> of_int (todayUsage gv now2 uid w2) < roundDouble (of_int B * pointEight)"
      unfolding eighty_percent(1)[OF assms(6,7)] using a by simp
    show "usageWarnings (createdBy w2 (snd (trackTokenUsage gv now2 uid t2 w2))) = []"
      unfolding trackTokenUsage_def Let_def assms(1-3) m option.case num.case cu bu
      using n titles_differ
      by (simp add: usageWarnings_def createdBy_def notification_titles)
  qed
  show ?thesis by (intro conjI c1 c2 c3 c4 c5 c6 c7)
qed

theorem token_budget_check_witness:
  "settingsFindUnique calmGov = None \<and> generationAggregate calmGov = None \<and>
   notificationCreate calmGov = None \<and> maxTokensPerDay spentWorld = Num 100 \<and>
   todayUsage calmGov t0 ''u1'' spentWorld = 70 \<and>
   fst (trackTokenUsage calmGov t0 ''u1'' 30 spentWorld) \<and>
   \<not> fst (trackTokenUsage calmGov t0 ''u1'' 31 spentWorld) \<and>
   createdBy spentWorld (snd (trackTokenUsage calmGov t0 ''u1'' 31 spentWorld))
     = [tokenLimitNotification ''u1'' 100 t0] \<and>
   createdBy spentWorld (snd (trackTokenUsage calmGov t0 ''u1'' 15 spentWorld))
     = [tokenWarningNotification ''u1'' 80 t0] \<and>
   length (usageWarnings (createdBy spentWorld (snd (trackTokenUsage calmGov t0 ''u1'' 15 spentWorld)))) = 1 \<and>
   length (usageWarnings (createdBy spentWorld (snd (trackTokenUsage calmGov t0 ''u1'' 5 spentWorld)))) = 0 \<and>
   todayUsage calmGov t0 ''u1'' (snd (trackTokenUsage calmGov t0 ''u1'' 15 spentWorld)) = 70"
proof -
  have h1: "settingsFindUnique calmGov = None" and h2: "generationAggregate calmGov = None"
    and h3: "notificationCreate calmGov = None"
    by (simp_all add: calmGov_def)
  have h4: "maxTokensPerDay spentWorld = Num 100" by (rule spent_today(2))
  have h5: "todayUsage calmGov t0 ''u1'' spentWorld = 70" by (rule spent_today(4))
  have h6: "(0::int) \<le> 100" "(100::int) \<le> 2 ^ 50" "\<bar>70::int\<bar> \<le> 2 ^ 53" by simp_all
  have r: "\<bar>70 + 30 :: int\<bar> \<le> 2 ^ 53" "\<bar>70 + 31 :: int\<bar> \<le> 2 ^ 53" "\<bar>70 + 15 :: int\<bar> \<le> 2 ^ 53"
    "\<bar>70 + 5 :: int\<bar> \<le> 2 ^ 53"
    by simp_all
  note t = token_budget_check[OF h1 h2 h3 h4 h5 h6]
  have a: "fst (trackTokenUsage calmGov t0 ''u1'' 30 spentWorld)"
    using t[OF r(1)] by simp
  have b: "\<not> fst (trackTokenUsage calmGov t0 ''u1'' 31 spentWorld)"
    using t[OF r(2)] by simp
  have b': "createdBy spentWorld (snd (trackTokenUsage calmGov t0 ''u1'' 31 spentWorld))
     = [tokenLimitNotification ''u1'' 100 t0]"
    using t[OF r(2)] by simp
  have c: "createdBy spentWorld (snd (trackTokenUsage calmGov t0 ''u1'' 15 spentWorld))
     = [tokenWarningNotification ''u1'' 80 t0]"
    using t[OF r(3)] by simp
  have c': "length (usageWarnings (createdBy spentWorld (snd (trackTokenUsage calmGov t0 ''u1'' 15 spentWorld)))) = 1"
    using t[OF r(3)] by (simp add: usageWarnings_def notification_titles)
  have d: "length (usageWarnings (createdBy spentWorld (snd (trackTokenUsage calmGov t0 ''u1'' 5 spentWorld)))) = 0"
    using t[OF r(4)] by (simp add: usageWarnings_def)
  have e: "todayUsage calmGov t0 ''u1'' (snd (trackTokenUsage calmGov t0 ''u1'' 15 spentWorld)) = 70"
    using t[OF r(3)] by simp
  show ?thesis using h1 h2 h3 h4 h5 a b b' c c' d e by simp
qed

section \<open>Claim C10: errors inside the checks\<close>

lemma checkRateLimit_decision:
  "allowed (fst (checkRateLimit gv now i e m l w))
     = (count (windowAt now (cacheKey i e m) w) + 1 \<le> actualLimit gv e l w) \<and>
   limit (fst (checkRateLimit gv now i e m l w)) = actualLimit gv e l w"
proof -
  obtain r w' where s: "checkRateLimit gv now i e m l w = (r, w')"
    by (cases "checkRateLimit gv now i e m l w")
  from checkRateLimit_step[OF s] show ?thesis unfolding s by simp
qed

lemma actualLimit_faults:
  "actualLimit (gv\<lparr>usageLogCreate := x, notificationFindFirst := y, notificationCreate := z\<rparr>) e l w
     = actualLimit gv e l w"
  by (simp add: actualLimit_def getCustomRateLimit_def)

lemma actualLimit_lookup_raises: "settingsFindUnique gv = Some x \<Longrightarrow> actualLimit gv e l w = l"
  by (simp add: actualLimit_def getCustomRateLimit_def)

text \<open>
  As stated, claim C10 fails for the rate limit: a raising ledger write is caught inside
  the limiter and the check goes on to decide by the count. A caller who has used up
  the three calls of the window is answered 429, and the handler is not run, also when
  the ledger write raises.
\<close>

theorem ledger_error_still_denies:
  "usageLogCreate noLedgerGov = Some ''store unavailable'' \<and>
   responseStatus (rateLimitMiddleware noLedgerGov clientKey 100 t0 postsRequest okHandler usedUpWorld)
     = Some 429 \<and>
   responseStatus (okHandler usedUpWorld) = Some 200"
proof -
  have a: "actualLimit noLedgerGov ''/api/admin/posts'' 100 usedUpWorld = 3"
    by (simp add: actualLimit_def getCustomRateLimit_def findSetting_def usedUpWorld_def
          limitedWorld_def world0_def noLedgerGov_def calmGov_def parseInt_examples)
  have w: "windowAt t0 (cacheKey ''client'' ''/api/admin/posts'' ''GET'') usedUpWorld
             = \<lparr>count = 3, reset = t0 + 1000000\<rparr>"
    by (simp add: windowAt_def cacheGet_def cacheKey_def usedUpWorld_def)
  have d: "\<not> allowed (fst (checkRateLimit noLedgerGov t0 ''client'' ''/api/admin/posts'' ''GET'' 100
                             usedUpWorld))"
    using checkRateLimit_decision[of noLedgerGov t0 "''client''" "''/api/admin/posts''" "''GET''" 100
        usedUpWorld]
    unfolding a w by simp
  obtain r w1 where c: "checkRateLimit noLedgerGov t0 ''client'' ''/api/admin/posts'' ''GET'' 100
                          usedUpWorld = (r, w1)"
    by (cases "checkRateLimit noLedgerGov t0 ''client'' ''/api/admin/posts'' ''GET'' 100 usedUpWorld")
  have "rateLimitMiddleware noLedgerGov clientKey 100 t0 postsRequest okHandler usedUpWorld
          = (Inr (rateLimitHeaders r tooManyRequests), w1)"
    using d c by (simp add: rateLimitMiddleware_def clientKey_def postsRequest_def)
  moreover have "statusCode (rateLimitHeaders r tooManyRequests) = 429"
    by (simp add: rateLimitHeaders_def setHeader_def tooManyRequests_def Let_def
          split: option.splits)
  ultimately show ?thesis
    by (simp add: responseStatus_def okHandler_def noLedgerGov_def)
qed

text \<open>
  Claim C10, amended. No error of a check's internal work refuses a request by itself.
  An error that escapes the rate-limit check (the key generator raising) makes the
  middleware run the wrapped handler. Errors inside the limiter are caught there: a
  raising ledger write or notification leaves the decision as it would have been, and a
  raising settings lookup makes the caller's default the limit, so the decision
  is still \<open>count \<le> limit\<close>. The token-budget check returns allowed when its settings
  lookup, its aggregate or its notification write raises, and the token middleware then
  runs the handler. The maintenance check reports not-in-maintenance with emergency
  access disabled when its lookup raises.
\<close>

theorem governance_errors_fail_open:
  "(keyGenerator req = Inl x \<longrightarrow>
      rateLimitMiddleware gv keyGenerator mx now req handler w = handler w) \<and>
   allowed (fst (checkRateLimit
              (gv\<lparr>usageLogCreate := a, notificationFindFirst := b, notificationCreate := c\<rparr>)
              now i e m l w))
     = allowed (fst (checkRateLimit gv now i e m l w)) \<and>
   (settingsFindUnique gv \<noteq> None \<longrightarrow> limit (fst (checkRateLimit gv now i e m l w)) = l) \<and>
   (settingsFindUnique gv \<noteq> None \<or> generationAggregate gv \<noteq> None \<or>
    notificationCreate gv \<noteq> None \<longrightarrow>
      fst (trackTokenUsage gv now uid t w) \<and>
      tokenLimitMiddleware gv now req handler uid t w =
        (case handler (snd (trackTokenUsage gv now uid t w)) of
           (Inl x, w2) \<Rightarrow> handler w2
         | (Inr r, w2) \<Rightarrow> (Inr r, w2))) \<and>
   (settingsFindMany gv \<noteq> None \<longrightarrow>
      checkMaintenanceMode gv now w =
        \<lparr>isMaintenanceMode = False, emergencyAccess = False, statusMessage = None\<rparr>)"
proof -
  have c1: "keyGenerator req = Inl x \<longrightarrow>
      rateLimitMiddleware gv keyGenerator mx now req handler w = handler w"
    by (simp add: rateLimitMiddleware_def)
  have c2: "allowed (fst (checkRateLimit
              (gv\<lparr>usageLogCreate := a, notificationFindFirst := b, notificationCreate := c\<rparr>)
              now i e m l w))
     = allowed (fst (checkRateLimit gv now i e m l w))"
    by (simp add: checkRateLimit_decision actualLimit_faults)
  have c3: "settingsFindUnique gv \<noteq> None \<longrightarrow> limit (fst (checkRateLimit gv now i e m l w)) = l"
    using actualLimit_lookup_raises[of gv _ e l w] by (auto simp: checkRateLimit_decision)
  have t: "fst (trackTokenUsage gv now uid t w)"
    if "settingsFindUnique gv \<noteq> None \<or> generationAggregate gv \<noteq> None \<or>
        notificationCreate gv \<noteq> None"
    using that
    by (auto simp: trackTokenUsage_def Let_def split: option.splits num.splits)
  have c4: "settingsFindUnique gv \<noteq> None \<or> generationAggregate gv \<noteq> None \<or>
    notificationCreate gv \<noteq> None \<longrightarrow>
      fst (trackTokenUsage gv now uid t w) \<and>
      tokenLimitMiddleware gv now req handler uid t w =
        (case handler (snd (trackTokenUsage gv now uid t w)) of
           (Inl x, w2) \<Rightarrow> handler w2
         | (Inr r, w2) \<Rightarrow> (Inr r, w2))"
  proof
    assume h: "settingsFindUnique gv \<noteq> None \<or> generationAggregate gv \<noteq> None \<or>
               notificationCreate gv \<noteq> None"
    obtain ok w1 where k: "trackTokenUsage gv now uid t w = (ok, w1)"
      by (cases "trackTokenUsage gv now uid t w")
    have "ok" using t[OF h] k by simp
    then show "fst (trackTokenUsage gv now uid t w) \<and>
      tokenLimitMiddleware gv now req handler uid t w =
        (case handler (snd (trackTokenUsage gv now uid t w)) of
           (Inl x, w2) \<Rightarrow> handler w2
         | (Inr r, w2) \<Rightarrow> (Inr r, w2))"
      using k by (simp add: tokenLimitMiddleware_def)
  qed
  have c5: "settingsFindMany gv \<noteq> None \<longrightarrow>
      checkMaintenanceMode gv now w =
        \<lparr>isMaintenanceMode = False, emergencyAccess = False, statusMessage = None\<rparr>"
    by (auto simp: checkMaintenanceMode_def)
  show ?thesis by (intro conjI c1 c2 c3 c4 c5)
qed

theorem governance_errors_fail_open_witness:
  "brokenKey postsRequest = Inl ''no key'' \<and>
   rateLimitMiddleware downGov brokenKey 100 t0 postsRequest okHandler usedUpWorld
     = okHandler usedUpWorld \<and>
   settingsFindUnique downGov \<noteq> None \<and>
   limit (fst (checkRateLimit downGov t0 ''client'' ''/api/admin/posts'' ''GET'' 100 usedUpWorld)) = 100 \<and>
   fst (trackTokenUsage downGov t0 ''u1'' 1000 spentWorld) \<and>
   tokenLimitMiddleware downGov t0 postsRequest okHandler ''u1'' 1000 spentWorld
     = (Inr \<lparr>statusCode = 200, body = ''ok'', headers = []\<rparr>, spentWorld) \<and>
   settingsFindMany downGov \<noteq> None \<and>
   checkMaintenanceMode downGov t0 maintenanceWorld =
     \<lparr>isMaintenanceMode = False, emergencyAccess = False, statusMessage = None\<rparr>"
proof -
  have h1: "brokenKey postsRequest = Inl ''no key''" by (simp add: brokenKey_def)
  have h2: "settingsFindUnique downGov \<noteq> None" "settingsFindMany downGov \<noteq> None"
    by (simp_all add: downGov_def calmGov_def)
  have s: "snd (trackTokenUsage downGov t0 ''u1'' 1000 spentWorld) = spentWorld"
    by (simp add: trackTokenUsage_def downGov_def calmGov_def)
  note t1 = governance_errors_fail_open[of brokenKey postsRequest "''no key''" downGov 100 t0
      okHandler usedUpWorld None None None "''client''" "''/api/admin/posts''" "''GET''" 100
      "''u1''" 1000]
  note t2 = governance_errors_fail_open[of brokenKey postsRequest "''no key''" downGov 100 t0
      okHandler spentWorld None None None "''client''" "''/api/admin/posts''" "''GET''" 100
      "''u1''" 1000]
  note t3 = governance_errors_fail_open[of brokenKey postsRequest "''no key''" downGov 100 t0
      okHandler maintenanceWorld None None None "''client''" "''/api/admin/posts''" "''GET''" 100
      "''u1''" 1000]
  from t1 h1 have a: "rateLimitMiddleware downGov brokenKey 100 t0 postsRequest okHandler usedUpWorld
     = okHandler usedUpWorld" by blast
  from t1 h2 have b: "limit (fst (checkRateLimit downGov t0 ''client'' ''/api/admin/posts'' ''GET'' 100
                                    usedUpWorld)) = 100" by blast
  from t2 h2 have c: "fst (trackTokenUsage downGov t0 ''u1'' 1000 spentWorld)" by blast
  from t2 h2 have "tokenLimitMiddleware downGov t0 postsRequest okHandler ''u1'' 1000 spentWorld =
        (case okHandler (snd (trackTokenUsage downGov t0 ''u1'' 1000 spentWorld)) of
           (Inl x, w2) \<Rightarrow> okHandler w2
         | (Inr r, w2) \<Rightarrow> (Inr r, w2))" by blast
  then have d: "tokenLimitMiddleware downGov t0 postsRequest okHandler ''u1'' 1000 spentWorld
     = (Inr \<lparr>statusCode = 200, body = ''ok'', headers = []\<rparr>, spentWorld)"
    unfolding s by (simp add: okHandler_def)
  from t3 h2 have e: "checkMaintenanceMode downGov t0 maintenanceWorld =
     \<lparr>isMaintenanceMode = False, emergencyAccess = False, statusMessage = None\<rparr>" by blast
  show ?thesis using h1 h2 a b c d e by simp
qed

end
